theory Spec2Isabelle
  imports Main "HOL-Library.Sublist"
begin

section \<open>JavaScript values\<close>

text \<open>
  The initializer receives the page context, a value parsed from JSON, and reads the
  attribute list out of it. The values it can meet are modelled by a datatype: the JSON
  values plus \<open>undefined\<close> (what reading an absent property gives). Numbers are the
  integer-valued ones that print in plain decimal digits (below \<open>1e21\<close> in absolute
  value); an object is the list of its own properties, a lookup taking the first
  binding of a key. Strings are lists of 8-bit characters read as the code units
  U+0000 to U+00FF.
\<close>

datatype jsval =
    JUndefined
  | JNull
  | JBool bool
  | JNum int
  | JStr string
  | JArr "jsval list"
  | JObj "(string \<times> jsval) list"

datatype js_error = TypeError

text \<open>
  Reading a property: \<open>null.name\<close> and \<open>undefined.name\<close> throw a TypeError; an object
  gives the property or \<open>undefined\<close>. The program reads only the properties \<open>name\<close>,
  \<open>value\<close>, \<open>productUseDynamicCustomFieldTabs\<close> and \<open>productCustomFields\<close>, which
  booleans, numbers, strings and arrays do not have.
\<close>

fun get_prop :: "jsval \<Rightarrow> string \<Rightarrow> js_error + jsval" where
  "get_prop JUndefined k = Inl TypeError"
| "get_prop JNull k = Inl TypeError"
| "get_prop (JObj kvs) k = Inr (case map_of kvs k of None \<Rightarrow> JUndefined | Some v \<Rightarrow> v)"
| "get_prop (JBool b) k = Inr JUndefined"
| "get_prop (JNum n) k = Inr JUndefined"
| "get_prop (JStr s) k = Inr JUndefined"
| "get_prop (JArr xs) k = Inr JUndefined"

text \<open>Truthiness, as \<open>!x\<close>, \<open>x && y\<close>, \<open>x || y\<close> and \<open>if (x)\<close> read it.\<close>

fun truthy :: "jsval \<Rightarrow> bool" where
  "truthy JUndefined = False"
| "truthy JNull = False"
| "truthy (JBool b) = b"
| "truthy (JNum n) = (n \<noteq> 0)"
| "truthy (JStr s) = (s \<noteq> [])"
| "truthy (JArr xs) = True"
| "truthy (JObj kvs) = True"

text \<open>Decimal digits of a natural number, as a template literal prints an array index.\<close>

definition digit_char :: "nat \<Rightarrow> char" where
  "digit_char d = ''0123456789'' ! d"

function decimal :: "nat \<Rightarrow> string" where
  "decimal n =
     (if n < 10 then [digit_char n] else decimal (n div 10) @ [digit_char (n mod 10)])"
  by pat_completeness auto
termination
  by (relation "measure id") auto

declare decimal.simps [simp del]

fun join_comma :: "string list \<Rightarrow> string" where
  "join_comma [] = []"
| "join_comma [s] = s"
| "join_comma (s # t # ss) = s @ '','' @ join_comma (t # ss)"

text \<open>
  \<open>String(x)\<close>; an array prints its elements joined by commas, null and undefined
  elements as the empty string. An object is converted by the \<open>toString\<close> it inherits:
  the objects of the context are taken to have no \<open>toString\<close> or \<open>valueOf\<close> property of
  their own (with an own one that is not callable the conversion throws a TypeError).
  The statements below that rest on a conversion returning are made for names and
  values that are strings, null or absent.
\<close>

fun js_String :: "jsval \<Rightarrow> string" where
  "js_String JUndefined = ''undefined''"
| "js_String JNull = ''null''"
| "js_String (JBool b) = (if b then ''true'' else ''false'')"
| "js_String (JNum n) = (if n < 0 then ''-'' @ decimal (nat (- n)) else decimal (nat n))"
| "js_String (JStr s) = s"
| "js_String (JArr xs) =
     join_comma (map (\<lambda>x. if x = JUndefined \<or> x = JNull then [] else js_String x) xs)"
| "js_String (JObj kvs) = ''[object Object]''"

section \<open>String operations\<close>

text \<open>
  White space of \<open>trim\<close> and of the pattern \<open>\s\<close> among the code units below 256: tab,
  line feed, vertical tab, form feed, carriage return, space and no-break space.
\<close>

definition is_space :: "char \<Rightarrow> bool" where
  "is_space c = (let n = (of_char c :: nat) in (9 \<le> n \<and> n \<le> 13) \<or> n = 32 \<or> n = 160)"

definition trim :: "string \<Rightarrow> string" where
  "trim s = rev (dropWhile is_space (rev (dropWhile is_space s)))"

text \<open>\<open>toLowerCase\<close>: A to Z, and the capital letters of U+00C0 to U+00DE (U+00D7, the
  multiplication sign, is not a letter).\<close>

definition lower_char :: "char \<Rightarrow> char" where
  "lower_char c = (let n = (of_char c :: nat) in
     if (65 \<le> n \<and> n \<le> 90) \<or> (192 \<le> n \<and> n \<le> 222 \<and> n \<noteq> 215)
     then char_of (n + 32) else c)"

definition toLowerCase :: "string \<Rightarrow> string" where
  "toLowerCase s = map lower_char s"

text \<open>\<open>.replace(/\s+/g, '-')\<close>: every maximal run of white space becomes one hyphen.\<close>

function replace_spaces :: "string \<Rightarrow> string" where
  "replace_spaces [] = []"
| "replace_spaces (c # cs) =
     (if is_space c then CHR ''-'' # replace_spaces (dropWhile is_space cs)
      else c # replace_spaces cs)"
  by pat_completeness auto
termination
  by (relation "measure length") (auto simp: length_dropWhile_le less_Suc_eq_le)

text \<open>\<open>.replace(/[^a-z0-9-]/g, '')\<close>.\<close>

definition slug_char :: "char \<Rightarrow> bool" where
  "slug_char c = (let n = (of_char c :: nat) in
     (97 \<le> n \<and> n \<le> 122) \<or> (48 \<le> n \<and> n \<le> 57) \<or> c = CHR ''-'')"

definition strip_non_slug :: "string \<Rightarrow> string" where
  "strip_non_slug s = filter slug_char s"

section \<open>The partitioner\<close>

definition NEWTAB_TRIGGER_NAME :: string where
  "NEWTAB_TRIGGER_NAME = ''__newtab''"

text \<open>\<open>name && String(name).trim().toLowerCase() === NEWTAB_TRIGGER_NAME\<close>: a falsy name
  is returned as it is, otherwise the boolean of the comparison.\<close>

definition isNewTabTrigger :: "jsval \<Rightarrow> jsval" where
  "isNewTabTrigger name =
     (if truthy name then JBool (toLowerCase (trim (js_String name)) = NEWTAB_TRIGGER_NAME)
      else name)"

definition slugify :: "jsval \<Rightarrow> nat \<Rightarrow> string" where
  "slugify label index =
     (case label of
        JStr s \<Rightarrow>
          (let slug = strip_non_slug (replace_spaces (trim (toLowerCase s)))
           in if slug \<noteq> [] then slug else ''tab-custom-'' @ decimal index)
      | _ \<Rightarrow> ''tab-custom-'' @ decimal index)"

text \<open>
  A pushed field \<open>{ name, value }\<close> keeps the two values as they are: the name is the
  trimmed string, the value whatever the attribute held (the empty string for null and
  undefined).
\<close>

record field =
  field_name :: jsval
  field_value :: jsval

record tab =
  label :: string
  slug :: string
  tab_fields :: "field list"

record partition =
  leadingFields :: "field list"
  tabs :: "tab list"

text \<open>
  The state of the \<open>forEach\<close> loop: the two arrays, the flag, and \<open>currentTab\<close>, which is
  null or a reference to a tab object that is also an element of \<open>tabs\<close>; the reference is
  the index of that element, and a push to \<open>currentTab.fields\<close> updates the element there.
\<close>

record loop_state = partition +
  currentTab :: "nat option"
  seenFirstTrigger :: bool

text \<open>\<open>const name = field.name && String(field.name).trim()\<close>\<close>

definition trimmed_name :: "jsval \<Rightarrow> jsval" where
  "trimmed_name n = (if truthy n then JStr (trim (js_String n)) else n)"

text \<open>\<open>const value = field.value != null ? field.value : ''\<close>\<close>

definition value_or_empty :: "jsval \<Rightarrow> jsval" where
  "value_or_empty v = (if v \<noteq> JNull \<and> v \<noteq> JUndefined then v else JStr [])"

text \<open>\<open>const label = typeof value === 'string' ? value.trim() : String(value)\<close>\<close>

definition trigger_label :: "jsval \<Rightarrow> string" where
  "trigger_label v = (case v of JStr s \<Rightarrow> trim s | _ \<Rightarrow> js_String v)"

definition push_field :: "field \<Rightarrow> tab \<Rightarrow> tab" where
  "push_field f t = t\<lparr>tab_fields := tab_fields t @ [f]\<rparr>"

text \<open>The body of the loop, on the two values read from the field.\<close>

definition visit :: "loop_state \<Rightarrow> jsval \<Rightarrow> jsval \<Rightarrow> loop_state" where
  "visit st n v =
     (let name = trimmed_name n; val = value_or_empty v in
      if truthy (isNewTabTrigger name) then
        (let lbl = trigger_label val;
             t = \<lparr>label = (if lbl \<noteq> [] then lbl else ''Details''),
                  slug = slugify (JStr lbl) (length (tabs st)),
                  tab_fields = []\<rparr>
         in st\<lparr>seenFirstTrigger := True,
                currentTab := Some (length (tabs st)),
                tabs := tabs st @ [t]\<rparr>)
      else if truthy name then
        (case (seenFirstTrigger st, currentTab st) of
           (True, Some i) \<Rightarrow>
             st\<lparr>tabs := (tabs st)[i := push_field \<lparr>field_name = name, field_value = val\<rparr> (tabs st ! i)]\<rparr>
         | _ \<Rightarrow>
             st\<lparr>leadingFields := leadingFields st @ [\<lparr>field_name = name, field_value = val\<rparr>]\<rparr>)
      else st)"

definition group_step :: "loop_state \<Rightarrow> jsval \<Rightarrow> js_error + loop_state" where
  "group_step st fld =
     (case get_prop fld ''name'' of
        Inl e \<Rightarrow> Inl e
      | Inr n \<Rightarrow>
          (case get_prop fld ''value'' of
             Inl e \<Rightarrow> Inl e
           | Inr v \<Rightarrow> Inr (visit st n v)))"

text \<open>\<open>customFields.forEach\<close>: the elements in order; an exception ends the loop.\<close>

fun forEach_fields :: "loop_state \<Rightarrow> jsval list \<Rightarrow> js_error + loop_state" where
  "forEach_fields st [] = Inr st"
| "forEach_fields st (x # xs) =
     (case group_step st x of Inl e \<Rightarrow> Inl e | Inr st' \<Rightarrow> forEach_fields st' xs)"

definition empty_result :: partition where
  "empty_result = \<lparr>leadingFields = [], tabs = []\<rparr>"

definition initial_state :: loop_state where
  "initial_state =
     \<lparr>leadingFields = [], tabs = [], currentTab = None, seenFirstTrigger = False\<rparr>"

definition groupCustomFieldsIntoTabs :: "jsval \<Rightarrow> js_error + partition" where
  "groupCustomFieldsIntoTabs customFields =
     (case customFields of
        JArr xs \<Rightarrow>
          (if xs = [] then Inr empty_result
           else (case forEach_fields initial_state xs of
                   Inl e \<Rightarrow> Inl e
                 | Inr st \<Rightarrow> Inr \<lparr>leadingFields = leadingFields st, tabs = tabs st\<rparr>))
      | _ \<Rightarrow> Inr empty_result)"

section \<open>The document\<close>

text \<open>
  The document is a tree of nodes. An element keeps what this program reads or writes:
  its tag, its \<open>id\<close> attribute, its class list, its \<open>href\<close> attribute and its children.
  A text node holds its text. The nodes that the HTML parser makes of a field value
  assigned to \<open>innerHTML\<close> are kept as one leaf holding the string: the markup of a value
  is taken to hold no element with an id or a class that this program looks up. The
  document itself is the list of the children of its root element, and an element is
  referred to by its path, the list of child indices that leads to it; the root element
  is taken to have none of the ids and classes looked up here.
\<close>

datatype node =
    Element string "string option" "string list" "string option" "node list"
  | TextNode string
  | Markup string

type_synonym path = "nat list"

fun tag :: "node \<Rightarrow> string option" where
  "tag (Element t i cl h cs) = Some t"
| "tag (TextNode s) = None"
| "tag (Markup s) = None"

fun elem_id :: "node \<Rightarrow> string option" where
  "elem_id (Element t i cl h cs) = i"
| "elem_id (TextNode s) = None"
| "elem_id (Markup s) = None"

fun classes :: "node \<Rightarrow> string list" where
  "classes (Element t i cl h cs) = cl"
| "classes (TextNode s) = []"
| "classes (Markup s) = []"

fun href :: "node \<Rightarrow> string option" where
  "href (Element t i cl h cs) = h"
| "href (TextNode s) = None"
| "href (Markup s) = None"

fun children :: "node \<Rightarrow> node list" where
  "children (Element t i cl h cs) = cs"
| "children (TextNode s) = []"
| "children (Markup s) = []"

fun with_children :: "(node list \<Rightarrow> node list) \<Rightarrow> node \<Rightarrow> node" where
  "with_children f (Element t i cl h cs) = Element t i cl h (f cs)"
| "with_children f (TextNode s) = TextNode s"
| "with_children f (Markup s) = Markup s"

fun with_classes :: "(string list \<Rightarrow> string list) \<Rightarrow> node \<Rightarrow> node" where
  "with_classes f (Element t i cl h cs) = Element t i (f cl) h cs"
| "with_classes f (TextNode s) = TextNode s"
| "with_classes f (Markup s) = Markup s"

text \<open>The node at a path.\<close>

fun node_at :: "node list \<Rightarrow> path \<Rightarrow> node option" where
  "node_at ns [] = None"
| "node_at ns [k] = (if k < length ns then Some (ns ! k) else None)"
| "node_at ns (k # p) = (if k < length ns then node_at (children (ns ! k)) p else None)"

text \<open>\<open>document.getElementById\<close>: the first element in document order that has the id.\<close>

fun find_in_node :: "string \<Rightarrow> node \<Rightarrow> path option"
  and find_in_list :: "string \<Rightarrow> nat \<Rightarrow> node list \<Rightarrow> path option" where
  "find_in_node a (Element t i cl h cs) = (if i = Some a then Some [] else find_in_list a 0 cs)"
| "find_in_node a (TextNode s) = None"
| "find_in_node a (Markup s) = None"
| "find_in_list a k [] = None"
| "find_in_list a k (n # ns) =
     (case find_in_node a n of
        Some p \<Rightarrow> Some (k # p)
      | None \<Rightarrow> find_in_list a (Suc k) ns)"

definition getElementById :: "string \<Rightarrow> node list \<Rightarrow> path option" where
  "getElementById a doc = find_in_list a 0 doc"

text \<open>\<open>parent.insertBefore(frag, child)\<close> with a document fragment: the children of the
  fragment are put, in order, before the child at the path.\<close>

fun insertBefore :: "node list \<Rightarrow> path \<Rightarrow> node list \<Rightarrow> node list" where
  "insertBefore frag [] ns = ns"
| "insertBefore frag [k] ns = take k ns @ frag @ drop k ns"
| "insertBefore frag (k # p) ns =
     (if k < length ns then ns[k := with_children (insertBefore frag p) (ns ! k)] else ns)"

text \<open>
  An element reference taken before an insertion still denotes the same element after
  it: its path in the new document, when \<open>n\<close> nodes were put in at the path \<open>at\<close>.
\<close>

fun path_after_insert :: "nat \<Rightarrow> path \<Rightarrow> path \<Rightarrow> path" where
  "path_after_insert n at [] = []"
| "path_after_insert n [] (j # p) = j # p"
| "path_after_insert n [k] (j # p) = (if k \<le> j then (j + n) # p else j # p)"
| "path_after_insert n (k # at) (j # p) =
     (if k = j then j # path_after_insert n at p else j # p)"

text \<open>The page: the document and the number of delegated click listeners that
  \<open>bindDynamicTabClicks\<close> has registered on it.\<close>

record page =
  document :: "node list"
  click_listeners :: nat

section \<open>The presenter\<close>

text \<open>Assigning to \<open>innerHTML\<close> converts to a string, null to the empty one (the
  conversion is that of \<open>String\<close>, with what is said there about objects).\<close>

definition innerHTML_string :: "jsval \<Rightarrow> string" where
  "innerHTML_string v = (if v = JNull then [] else js_String v)"

text \<open>The \<open>dt\<close> and \<open>dd\<close> built for one field.\<close>

definition field_pair :: "field \<Rightarrow> node list" where
  "field_pair f =
     [Element ''dt'' None [''productView-info-name''] None
        [TextNode (js_String (field_name f) @ '':'')],
      Element ''dd'' None [''productView-info-value''] None
        [Markup (innerHTML_string (field_value f))]]"

text \<open>The fragment of the leading fields: every pair, in order.\<close>

definition leading_fragment :: "field list \<Rightarrow> node list" where
  "leading_fragment lf = concat (map field_pair lf)"

definition injectLeadingCustomFields :: "field list \<Rightarrow> page \<Rightarrow> page" where
  "injectLeadingCustomFields lf pg =
     (if lf = [] then pg
      else (case getElementById ''product-leading-custom-fields-anchor'' (document pg) of
              None \<Rightarrow> pg
            | Some anchor \<Rightarrow>
                pg\<lparr>document := insertBefore (leading_fragment lf) anchor (document pg)\<rparr>))"

text \<open>\<open>`tab-dynamic-${tab.slug}-${i}`\<close>\<close>

definition rendered_id :: "tab \<Rightarrow> nat \<Rightarrow> string" where
  "rendered_id t i = ''tab-dynamic-'' @ slug t @ ''-'' @ decimal i"

text \<open>
  The text that the HTML parser reads back from an escaped string: \<open>escapeHtml\<close> writes
  the characters \<open>&\<close>, \<open><\<close> and \<open>>\<close> as references, which the parser decodes again, so
  the text is the string itself but for what the parser does to every input: a carriage
  return, alone or followed by a line feed, becomes one line feed, and a NUL character
  is dropped.
\<close>

fun normalize_newlines :: "string \<Rightarrow> string" where
  "normalize_newlines [] = []"
| "normalize_newlines [c] = [if c = CHR 0x0D then CHR 0x0A else c]"
| "normalize_newlines (c # d # cs) =
     (if c = CHR 0x0D
      then (if d = CHR 0x0A then CHR 0x0A # normalize_newlines cs
            else CHR 0x0A # normalize_newlines (d # cs))
      else c # normalize_newlines (d # cs))"

definition parsed_text :: "string \<Rightarrow> string" where
  "parsed_text s = filter (\<lambda>c. c \<noteq> CHR 0x00) (normalize_newlines s)"

text \<open>The text nodes that the parser makes of a text: none when the text is empty.\<close>

definition text_nodes :: "string \<Rightarrow> node list" where
  "text_nodes s = (if s = [] then [] else [TextNode s])"

text \<open>
  The list item of a tab. Its content is parsed from
  \<open><a class="tab-title" href="#id">\<close> followed by the escaped label: an anchor element
  whose text is the label as the parser reads it. The \<open>href\<close> reads back as written for a
  slug made of letters, digits and hyphens, as every slug of the partitioner is.
\<close>

definition tab_li :: "tab \<Rightarrow> nat \<Rightarrow> node" where
  "tab_li t i =
     Element ''li'' None [''tab''] None
       [Element ''a'' None [''tab-title''] (Some (''#'' @ rendered_id t i))
          (text_nodes (parsed_text (label t)))]"

definition tab_panel :: "tab \<Rightarrow> nat \<Rightarrow> node" where
  "tab_panel t i =
     Element ''div'' (Some (rendered_id t i)) [''tab-content''] None
       [Element ''dl'' None [''productView-info''] None
          (concat (map field_pair (tab_fields t)))]"

text \<open>The two fragments of \<open>tabs.forEach((tab, i) => ...)\<close>.\<close>

definition tab_list_fragment :: "tab list \<Rightarrow> node list" where
  "tab_list_fragment ts = map (\<lambda>(i, t). tab_li t i) (enumerate 0 ts)"

definition content_fragment :: "tab list \<Rightarrow> node list" where
  "content_fragment ts = map (\<lambda>(i, t). tab_panel t i) (enumerate 0 ts)"

definition injectDynamicTabs :: "tab list \<Rightarrow> page \<Rightarrow> page" where
  "injectDynamicTabs ts pg =
     (if ts = [] then pg
      else (case (getElementById ''product-dynamic-cf-tabs-anchor'' (document pg),
                  getElementById ''product-dynamic-cf-content-anchor'' (document pg)) of
              (Some listAnchor, Some contentAnchor) \<Rightarrow>
                (let tabListFrag = tab_list_fragment ts;
                     contentFrag = content_fragment ts;
                     doc1 = insertBefore tabListFrag listAnchor (document pg);
                     contentAnchor1 =
                       path_after_insert (length tabListFrag) listAnchor contentAnchor
                 in pg\<lparr>document := insertBefore contentFrag contentAnchor1 doc1\<rparr>)
            | _ \<Rightarrow> pg))"

text \<open>\<open>$(document).on('click', selector, handler)\<close> adds one delegated listener.\<close>

definition bindDynamicTabClicks :: "page \<Rightarrow> page" where
  "bindDynamicTabClicks pg = pg\<lparr>click_listeners := Suc (click_listeners pg)\<rparr>"

subsection \<open>The click handler\<close>

text \<open>
  A jQuery object is the list of the paths of its elements. The operations below are the
  ones the handler calls, with class selectors only.
\<close>

definition has_class_at :: "string \<Rightarrow> node list \<Rightarrow> path \<Rightarrow> bool" where
  "has_class_at c doc p = (case node_at doc p of Some n \<Rightarrow> c \<in> set (classes n) | None \<Rightarrow> False)"

definition kids_at :: "node list \<Rightarrow> path \<Rightarrow> node list" where
  "kids_at doc p =
     (if p = [] then doc else (case node_at doc p of Some n \<Rightarrow> children n | None \<Rightarrow> []))"

text \<open>The element and its ancestors, the nearest first.\<close>

definition self_and_ancestors :: "path \<Rightarrow> path list" where
  "self_and_ancestors p = rev (tl (prefixes p))"

definition ancestors :: "path \<Rightarrow> path list" where
  "ancestors p = rev (tl (butlast (prefixes p)))"

text \<open>\<open>.closest('.c')\<close>\<close>

definition closest :: "string \<Rightarrow> node list \<Rightarrow> path \<Rightarrow> path list" where
  "closest c doc p =
     (case List.find (has_class_at c doc) (self_and_ancestors p) of
        Some q \<Rightarrow> [q] | None \<Rightarrow> [])"

fun paths_node :: "node \<Rightarrow> path list"
  and paths_list :: "nat \<Rightarrow> node list \<Rightarrow> path list" where
  "paths_node (Element t i cl h cs) = [] # paths_list 0 cs"
| "paths_node (TextNode s) = [[]]"
| "paths_node (Markup s) = [[]]"
| "paths_list k [] = []"
| "paths_list k (n # ns) = map ((#) k) (paths_node n) @ paths_list (Suc k) ns"

text \<open>\<open>.find('.c')\<close>: the descendants with the class, of every element of the object.\<close>

definition jq_find :: "string \<Rightarrow> node list \<Rightarrow> path list \<Rightarrow> path list" where
  "jq_find c doc ps =
     concat (map (\<lambda>p. filter (has_class_at c doc)
                         (map ((@) p) (paths_list 0 (kids_at doc p)))) ps)"

text \<open>\<open>.parent()\<close> and \<open>.children('.c')\<close>; the parent of a top-level element is the root
  element, the empty path.\<close>

definition jq_parent :: "path list \<Rightarrow> path list" where
  "jq_parent ps = remdups (map butlast ps)"

definition jq_children :: "string \<Rightarrow> node list \<Rightarrow> path list \<Rightarrow> path list" where
  "jq_children c doc ps =
     concat (map (\<lambda>p. filter (has_class_at c doc)
                         (map (\<lambda>k. p @ [k]) [0 ..< length (kids_at doc p)])) ps)"

fun update_classes :: "(string list \<Rightarrow> string list) \<Rightarrow> path \<Rightarrow> node list \<Rightarrow> node list" where
  "update_classes f [] ns = ns"
| "update_classes f [k] ns = (if k < length ns then ns[k := with_classes f (ns ! k)] else ns)"
| "update_classes f (k # p) ns =
     (if k < length ns then ns[k := with_children (update_classes f p) (ns ! k)] else ns)"

definition removeClass :: "string \<Rightarrow> path list \<Rightarrow> node list \<Rightarrow> node list" where
  "removeClass c ps doc = fold (update_classes (removeAll c)) ps doc"

definition addClass :: "string \<Rightarrow> path list \<Rightarrow> node list \<Rightarrow> node list" where
  "addClass c ps doc =
     fold (update_classes (\<lambda>cl. if c \<in> set cl then cl else cl @ [c])) ps doc"

text \<open>
  \<open>$(href)\<close>: a string made of \<open>#\<close> and one or more word characters or hyphens is looked
  up with \<open>getElementById\<close>. Any other string goes to the selector engine, which is not
  modelled: the result is \<open>None\<close>.
\<close>

definition word_or_hyphen :: "char \<Rightarrow> bool" where
  "word_or_hyphen c = (let n = (of_char c :: nat) in
     (97 \<le> n \<and> n \<le> 122) \<or> (65 \<le> n \<and> n \<le> 90) \<or> (48 \<le> n \<and> n \<le> 57)
     \<or> c = CHR ''_'' \<or> c = CHR ''-'')"

definition jq_select :: "string \<Rightarrow> node list \<Rightarrow> path list option" where
  "jq_select sel doc =
     (case sel of
        [] \<Rightarrow> None
      | c # w \<Rightarrow>
          (if c = CHR ''#'' \<and> w \<noteq> [] \<and> list_all word_or_hyphen w
           then Some (case getElementById w doc of None \<Rightarrow> [] | Some p \<Rightarrow> [p])
           else None))"

text \<open>The outcome of one run of the handler: whether \<open>e.preventDefault()\<close> was called, and
  the document.\<close>

record click_outcome =
  default_prevented :: bool
  document_after :: "node list"

text \<open>The handler, run with \<open>this\<close> the element at the path.\<close>

definition tab_click_handler :: "path \<Rightarrow> node list \<Rightarrow> click_outcome option" where
  "tab_click_handler this doc =
     (case (case node_at doc this of Some n \<Rightarrow> href n | None \<Rightarrow> None) of
        None \<Rightarrow> Some \<lparr>default_prevented = False, document_after = doc\<rparr>
      | Some h \<Rightarrow>
          (if h = [] \<or> h = ''#'' then Some \<lparr>default_prevented = False, document_after = doc\<rparr>
           else (case jq_select h doc of
                   None \<Rightarrow> None
                 | Some content \<Rightarrow>
                     (if length content = 0
                      then Some \<lparr>default_prevented = False, document_after = doc\<rparr>
                      else
                        (let tabs_ul = closest ''tabs'' doc this;
                             contents = jq_children ''tab-content'' doc (jq_parent content);
                             doc1 = removeClass ''is-active'' (jq_find ''tab'' doc tabs_ul) doc;
                             doc2 = addClass ''is-active'' (closest ''tab'' doc1 this) doc1;
                             doc3 = removeClass ''is-active'' contents doc2;
                             doc4 = addClass ''is-active'' content doc3
                         in Some \<lparr>default_prevented = True, document_after = doc4\<rparr>)))))"

text \<open>
  The selector of the delegated listener,
  \<open>.productView-description .tabs a[href^="#tab-dynamic-"]\<close>: the handler runs with
  \<open>this\<close> an element that matches it.
\<close>

definition matches_tab_link :: "node list \<Rightarrow> path \<Rightarrow> bool" where
  "matches_tab_link doc p =
     (case node_at doc p of
        None \<Rightarrow> False
      | Some n \<Rightarrow>
          tag n = Some ''a'' \<and>
          (case href n of None \<Rightarrow> False | Some h \<Rightarrow> prefix ''#tab-dynamic-'' h) \<and>
          list_ex (\<lambda>q. has_class_at ''tabs'' doc q \<and>
                       list_ex (has_class_at ''productView-description'' doc) (ancestors q))
                  (ancestors p))"

section \<open>The entry point\<close>

definition initDynamicCustomFieldTabs :: "jsval \<Rightarrow> page \<Rightarrow> js_error + page" where
  "initDynamicCustomFieldTabs context pg =
     (if \<not> truthy context then Inr pg
      else (case get_prop context ''productUseDynamicCustomFieldTabs'' of
              Inl e \<Rightarrow> Inl e
            | Inr flag \<Rightarrow>
                (if \<not> truthy flag then Inr pg
                 else (case get_prop context ''productCustomFields'' of
                         Inl e \<Rightarrow> Inl e
                       | Inr customFields \<Rightarrow>
                           (if \<not> truthy customFields then Inr pg
                            else (case groupCustomFieldsIntoTabs customFields of
                                    Inl e \<Rightarrow> Inl e
                                  | Inr r \<Rightarrow>
                                      (let pg1 = injectLeadingCustomFields (leadingFields r) pg
                                       in if length (tabs r) > 0
                                          then Inr (bindDynamicTabClicks (injectDynamicTabs (tabs r) pg1))
                                          else Inr pg1)))))))"

section \<open>Notions used in the statements\<close>

text \<open>
  What the loop computes from one element of the attribute list: the \<open>name\<close> and the
  \<open>value\<close> of its body. (For null and undefined elements the body throws; these
  functions are used on the other elements only.)
\<close>

definition not_nullish :: "jsval \<Rightarrow> bool" where
  "not_nullish x = (x \<noteq> JNull \<and> x \<noteq> JUndefined)"

definition attr_name :: "jsval \<Rightarrow> jsval" where
  "attr_name fld =
     (case get_prop fld ''name'' of Inl e \<Rightarrow> JUndefined | Inr n \<Rightarrow> trimmed_name n)"

definition attr_value :: "jsval \<Rightarrow> jsval" where
  "attr_value fld =
     (case get_prop fld ''value'' of Inl e \<Rightarrow> JUndefined | Inr v \<Rightarrow> value_or_empty v)"

text \<open>The attribute is a trigger sentinel: the first branch of the loop body is taken.\<close>

definition is_trigger :: "jsval \<Rightarrow> bool" where
  "is_trigger fld = truthy (isNewTabTrigger (attr_name fld))"

text \<open>The attribute has a usable name: its name is there and, converted to a string and
  trimmed, is not empty.\<close>

definition has_usable_name :: "jsval \<Rightarrow> bool" where
  "has_usable_name fld = truthy (attr_name fld)"

definition is_content :: "jsval \<Rightarrow> bool" where
  "is_content fld = (has_usable_name fld \<and> \<not> is_trigger fld)"

text \<open>The object pushed for a content attribute.\<close>

definition normalized :: "jsval \<Rightarrow> field" where
  "normalized fld = \<lparr>field_name = attr_name fld, field_value = attr_value fld\<rparr>"

text \<open>The tab object made for a trigger when \<open>i\<close> tabs exist already.\<close>

definition new_tab :: "jsval \<Rightarrow> nat \<Rightarrow> tab" where
  "new_tab fld i =
     (let lbl = trigger_label (attr_value fld)
      in \<lparr>label = (if lbl \<noteq> [] then lbl else ''Details''),
          slug = slugify (JStr lbl) i, tab_fields = []\<rparr>)"

definition tab_head :: "tab \<Rightarrow> string \<times> string" where
  "tab_head t = (label t, slug t)"

text \<open>The leading fields followed by the fields of every tab, in tab order.\<close>

definition all_fields :: "'a partition_scheme \<Rightarrow> field list" where
  "all_fields p = leadingFields p @ concat (map tab_fields (tabs p))"

text \<open>The invariant of the loop: \<open>currentTab\<close> is null until the first trigger and the last
  element of \<open>tabs\<close> from then on.\<close>

definition loop_inv :: "loop_state \<Rightarrow> bool" where
  "loop_inv st =
     (case currentTab st of
        None \<Rightarrow> \<not> seenFirstTrigger st \<and> tabs st = []
      | Some i \<Rightarrow> seenFirstTrigger st \<and> tabs st \<noteq> [] \<and> i = length (tabs st) - 1)"

text \<open>The slug as the data model words it: derived from the label of the tab.\<close>

definition slug_of_label :: "string \<Rightarrow> nat \<Rightarrow> string" where
  "slug_of_label lbl i =
     (let s = strip_non_slug (replace_spaces (toLowerCase lbl))
      in if s = [] then ''tab-custom-'' @ decimal i else s)"

text \<open>The identifiers that \<open>injectDynamicTabs\<close> gives to the panels of a list of tabs.\<close>

definition rendered_ids :: "tab list \<Rightarrow> string list" where
  "rendered_ids ts = map (\<lambda>(i, t). rendered_id t i) (enumerate 0 ts)"

text \<open>A field of the context; absent when the context itself is null or undefined.\<close>

definition context_field :: "jsval \<Rightarrow> string \<Rightarrow> jsval" where
  "context_field ctx k = (case get_prop ctx k of Inl e \<Rightarrow> JUndefined | Inr v \<Rightarrow> v)"

definition isArray :: "jsval \<Rightarrow> bool" where
  "isArray v = (case v of JArr xs \<Rightarrow> True | _ \<Rightarrow> False)"

text \<open>The path leads to an element (not to a text node or to markup).\<close>

definition is_element_at :: "node list \<Rightarrow> path \<Rightarrow> bool" where
  "is_element_at doc p = (case node_at doc p of Some n \<Rightarrow> tag n \<noteq> None | None \<Rightarrow> False)"

text \<open>The siblings that precede the element at a path, and those that precede the
  first element with an id (none when no element has it).\<close>

fun siblings_before :: "node list \<Rightarrow> path \<Rightarrow> node list" where
  "siblings_before ns [] = []"
| "siblings_before ns [j] = take j ns"
| "siblings_before ns (j # q) =
     (if j < length ns then siblings_before (children (ns ! j)) q else [])"

definition before_anchor :: "string \<Rightarrow> node list \<Rightarrow> node list" where
  "before_anchor a doc =
     (case getElementById a doc of None \<Rightarrow> [] | Some q \<Rightarrow> siblings_before doc q)"

text \<open>No node of the list is, or contains, an element with the id.\<close>

definition lacks_id :: "string \<Rightarrow> node list \<Rightarrow> bool" where
  "lacks_id a ns = (\<forall>n\<in>set ns. find_in_node a n = None)"

text \<open>\<open>getElementById\<close> followed by \<open>insertBefore\<close>; nothing happens when no element has
  the id.\<close>

definition insert_before_id :: "string \<Rightarrow> node list \<Rightarrow> node list \<Rightarrow> node list" where
  "insert_before_id a frag doc =
     (case getElementById a doc of None \<Rightarrow> doc | Some p \<Rightarrow> insertBefore frag p doc)"

text \<open>The three anchors of the template are in the document.\<close>

definition anchors_present :: "node list \<Rightarrow> bool" where
  "anchors_present doc =
     (getElementById ''product-leading-custom-fields-anchor'' doc \<noteq> None \<and>
      getElementById ''product-dynamic-cf-tabs-anchor'' doc \<noteq> None \<and>
      getElementById ''product-dynamic-cf-content-anchor'' doc \<noteq> None)"

text \<open>The document after the three insertions of one run, for a partition.\<close>

definition render_partition :: "partition \<Rightarrow> node list \<Rightarrow> node list" where
  "render_partition r doc =
     insert_before_id ''product-dynamic-cf-content-anchor'' (content_fragment (tabs r))
       (insert_before_id ''product-dynamic-cf-tabs-anchor'' (tab_list_fragment (tabs r))
          (insert_before_id ''product-leading-custom-fields-anchor''
             (leading_fragment (leadingFields r)) doc))"

definition lacks_anchor_ids :: "node list \<Rightarrow> bool" where
  "lacks_anchor_ids X =
     (lacks_id ''product-leading-custom-fields-anchor'' X \<and>
      lacks_id ''product-dynamic-cf-tabs-anchor'' X \<and>
      lacks_id ''product-dynamic-cf-content-anchor'' X)"

subsection \<open>Attribute entries\<close>

text \<open>
  The data model has an attribute as a name and a value that are strings; a malformed
  one has a null or an absent name or value. An attribute entry is an element of the
  list, not null or undefined itself, whose \<open>name\<close> and \<open>value\<close> are each a string, null
  or absent. The notions below are worded on the text of the name and of the value, as
  the specification has them, and not on what the loop computes.
\<close>

definition prop_of :: "jsval \<Rightarrow> string \<Rightarrow> jsval" where
  "prop_of x k = (case get_prop x k of Inl e \<Rightarrow> JUndefined | Inr v \<Rightarrow> v)"

definition text_or_missing :: "jsval \<Rightarrow> bool" where
  "text_or_missing v =
     (case v of JStr s \<Rightarrow> True | JNull \<Rightarrow> True | JUndefined \<Rightarrow> True | _ \<Rightarrow> False)"

definition attribute_entry :: "jsval \<Rightarrow> bool" where
  "attribute_entry x =
     (not_nullish x \<and> text_or_missing (prop_of x ''name'') \<and> text_or_missing (prop_of x ''value''))"

text \<open>The text of a name or of a value: empty when it is null or absent.\<close>

definition text_of :: "jsval \<Rightarrow> string" where
  "text_of v = (case v of JStr s \<Rightarrow> s | _ \<Rightarrow> [])"

definition name_text :: "jsval \<Rightarrow> string" where
  "name_text x = text_of (prop_of x ''name'')"

definition value_text :: "jsval \<Rightarrow> string" where
  "value_text x = text_of (prop_of x ''value'')"

text \<open>A usable name is one that is not empty after trimming; a trigger is an entry whose
  name, trimmed and in lower case, is the reserved token; the attribute pushed for an
  entry has the trimmed name and the value, the empty string for a missing one.\<close>

definition usable_name_spec :: "jsval \<Rightarrow> bool" where
  "usable_name_spec x = (trim (name_text x) \<noteq> [])"

definition is_trigger_spec :: "jsval \<Rightarrow> bool" where
  "is_trigger_spec x = (toLowerCase (trim (name_text x)) = ''__newtab'')"

definition normalized_spec :: "jsval \<Rightarrow> field" where
  "normalized_spec x =
     \<lparr>field_name = JStr (trim (name_text x)), field_value = JStr (value_text x)\<rparr>"

text \<open>The attribute list of a context is made of attribute entries when it is an array
  (anything else is treated as an empty list), and these are its entries.\<close>

definition attribute_list :: "jsval \<Rightarrow> bool" where
  "attribute_list v = (case v of JArr xs \<Rightarrow> list_all attribute_entry xs | _ \<Rightarrow> True)"

definition entries :: "jsval \<Rightarrow> jsval list" where
  "entries v = (case v of JArr xs \<Rightarrow> xs | _ \<Rightarrow> [])"

text \<open>
  The text has the letters \<open>id\<close> next to each other, in either case. A value without them
  has no markup that gives an element an \<open>id\<close> attribute, so no lookup of an id can
  land inside what the parser makes of it; the document keeps such a value as one leaf.
\<close>

fun mentions_id :: "string \<Rightarrow> bool" where
  "mentions_id (c # d # cs) =
     (((c = CHR ''i'' \<or> c = CHR ''I'') \<and> (d = CHR ''d'' \<or> d = CHR ''D''))
      \<or> mentions_id (d # cs))"
| "mentions_id [c] = False"
| "mentions_id [] = False"

definition values_without_id :: "jsval \<Rightarrow> bool" where
  "values_without_id v = list_all (\<lambda>x. \<not> mentions_id (value_text x)) (entries v)"

subsection \<open>What the presenter is to build\<close>

text \<open>
  The label element and the value element of a field; the label controls and the
  panels of a list of tabs, the first of which has the position \<open>i\<close>: a label control
  is a list item with a link to the rendered identifier whose text is the label, a
  panel carries that identifier and holds one pair for each field of the tab.
\<close>

definition expected_pair :: "field \<Rightarrow> node list" where
  "expected_pair f =
     [Element ''dt'' None [''productView-info-name''] None
        [TextNode (text_of (field_name f) @ '':'')],
      Element ''dd'' None [''productView-info-value''] None
        [Markup (text_of (field_value f))]]"

fun expected_pairs :: "field list \<Rightarrow> node list" where
  "expected_pairs [] = []"
| "expected_pairs (f # fs) = expected_pair f @ expected_pairs fs"

fun expected_label_controls :: "nat \<Rightarrow> tab list \<Rightarrow> node list" where
  "expected_label_controls i [] = []"
| "expected_label_controls i (t # ts) =
     Element ''li'' None [''tab''] None
       [Element ''a'' None [''tab-title'']
          (Some (''#tab-dynamic-'' @ slug t @ ''-'' @ decimal i))
          (text_nodes (parsed_text (label t)))]
     # expected_label_controls (Suc i) ts"

fun expected_panels :: "nat \<Rightarrow> tab list \<Rightarrow> node list" where
  "expected_panels i [] = []"
| "expected_panels i (t # ts) =
     Element ''div'' (Some (''tab-dynamic-'' @ slug t @ ''-'' @ decimal i)) [''tab-content''] None
       [Element ''dl'' None [''productView-info''] None (expected_pairs (tab_fields t))]
     # expected_panels (Suc i) ts"

text \<open>The name and the value of the field are strings.\<close>

definition text_field :: "field \<Rightarrow> bool" where
  "text_field f = (\<exists>n v. field_name f = JStr n \<and> field_value f = JStr v)"

subsection \<open>Sample inputs\<close>

definition attribute :: "string \<Rightarrow> string \<Rightarrow> jsval" where
  "attribute n v = JObj [(''name'', JStr n), (''value'', JStr v)]"

definition sample_fields :: "jsval list" where
  "sample_fields =
     [attribute ''Color'' ''Red'', attribute ''__newtab'' ''Specs'',
      attribute ''Weight'' ''2kg'', attribute ''__NewTab'' '' '',
      attribute ''Note'' ''<b>hi</b>'']"

text \<open>A list with malformed entries: a number for an element, an absent name, a
  blank name, a null value.\<close>

definition malformed_fields :: "jsval list" where
  "malformed_fields =
     [JNum 3, JObj [(''value'', JStr ''x'')], attribute ''  '' ''y'',
      JObj [(''name'', JStr '' Size ''), (''value'', JNull)],
      JObj [(''name'', JStr '' __NEWTAB''), (''value'', JNull)],
      JObj [(''name'', JNum 7)]]"

text \<open>The document of the product page template, cut down to the three anchors and
  one static tab with its panel.\<close>

definition template_document :: "node list" where
  "template_document =
     [Element ''dl'' None [''productView-info''] None
        [Element ''dt'' (Some ''product-leading-custom-fields-anchor'')
           [''u-hiddenVisually''] None []],
      Element ''article'' None [''productView-description''] None
        [Element ''ul'' None [''tabs''] None
           [Element ''li'' None [''tab'', ''is-active''] None
              [Element ''a'' None [''tab-title''] (Some ''#tab-description'')
                 [TextNode ''Description'']],
            Element ''li'' (Some ''product-dynamic-cf-tabs-anchor'')
              [''u-hiddenVisually''] None []],
         Element ''div'' None [''tabs-contents''] None
           [Element ''div'' (Some ''tab-description'') [''tab-content'', ''is-active''] None [],
            Element ''div'' (Some ''product-dynamic-cf-content-anchor'')
              [''u-hiddenVisually''] None []]]]"

definition template_page :: page where
  "template_page = \<lparr>document = template_document, click_listeners = 0\<rparr>"

definition make_context :: "jsval \<Rightarrow> jsval \<Rightarrow> jsval" where
  "make_context flag customFields =
     JObj [(''productUseDynamicCustomFieldTabs'', flag), (''productCustomFields'', customFields)]"

definition leading_only_context :: jsval where
  "leading_only_context = make_context (JBool True) (JArr [attribute ''Color'' ''Red''])"

definition sample_context :: jsval where
  "sample_context = make_context (JBool True) (JArr sample_fields)"

text \<open>The document of the template after the entry point has run on the sample.\<close>

definition rendered_document :: "node list" where
  "rendered_document =
     (case initDynamicCustomFieldTabs sample_context template_page of
        Inr pg \<Rightarrow> document pg | Inl e \<Rightarrow> [])"

text \<open>The document of the template after the entry point has run twice on the sample.\<close>

definition rendered_twice :: "node list" where
  "rendered_twice =
     (case initDynamicCustomFieldTabs sample_context template_page of
        Inl e \<Rightarrow> []
      | Inr pg1 \<Rightarrow>
          (case initDynamicCustomFieldTabs sample_context pg1 of
             Inl e \<Rightarrow> [] | Inr pg2 \<Rightarrow> document pg2))"

text \<open>A tab list with a dynamic tab link whose panel is not in the document.\<close>

definition orphan_link_document :: "node list" where
  "orphan_link_document =
     [Element ''article'' None [''productView-description''] None
        [Element ''ul'' None [''tabs''] None
           [Element ''li'' None [''tab''] None
              [Element ''a'' None [''tab-title''] (Some ''#tab-dynamic-specs-0'')
                 [TextNode ''Specs'']]],
         Element ''div'' None [''tabs-contents''] None []]]"

text \<open>The partition of the sample.\<close>

definition sample_result :: partition where
  "sample_result =
     \<lparr>leadingFields = [\<lparr>field_name = JStr ''Color'', field_value = JStr ''Red''\<rparr>],
      tabs = [\<lparr>label = ''Specs'', slug = ''specs'',
               tab_fields = [\<lparr>field_name = JStr ''Weight'', field_value = JStr ''2kg''\<rparr>]\<rparr>,
              \<lparr>label = ''Details'', slug = ''tab-custom-1'',
               tab_fields = [\<lparr>field_name = JStr ''Note'', field_value = JStr ''<b>hi</b>''\<rparr>]\<rparr>]\<rparr>"

text \<open>A list of attribute entries with padded names, a blank name, an absent name, a
  null name, a null value, an absent value, a padded trigger and a stray string.\<close>

definition messy_attributes :: "jsval list" where
  "messy_attributes =
     [attribute ''  Color '' ''Red'',
      JObj [(''value'', JStr ''x'')],
      attribute ''   '' ''y'',
      JObj [(''name'', JStr ''Size''), (''value'', JNull)],
      attribute '' __NewTab '' '' Specs '',
      JObj [(''name'', JNull), (''value'', JStr ''z'')],
      attribute '' Weight'' ''2kg'',
      JStr ''stray'',
      JObj [(''name'', JStr ''Note'')]]"

definition messy_result :: partition where
  "messy_result =
     \<lparr>leadingFields =
        [\<lparr>field_name = JStr ''Color'', field_value = JStr ''Red''\<rparr>,
         \<lparr>field_name = JStr ''Size'', field_value = JStr []\<rparr>],
      tabs =
        [\<lparr>label = ''Specs'', slug = ''specs'',
          tab_fields =
            [\<lparr>field_name = JStr ''Weight'', field_value = JStr ''2kg''\<rparr>,
             \<lparr>field_name = JStr ''Note'', field_value = JStr []\<rparr>]\<rparr>]\<rparr>"

text \<open>A page whose document has none of the anchors.\<close>

definition bare_page :: page where
  "bare_page = \<lparr>document = [], click_listeners = 0\<rparr>"

text \<open>The nodes to be built for the sample: the pair of its leading field, the label
  controls and the panels of its two tabs.\<close>

definition color_pair :: "node list" where
  "color_pair =
     [Element ''dt'' None [''productView-info-name''] None [TextNode ''Color:''],
      Element ''dd'' None [''productView-info-value''] None [Markup ''Red'']]"

definition specs_label :: node where
  "specs_label =
     Element ''li'' None [''tab''] None
       [Element ''a'' None [''tab-title''] (Some ''#tab-dynamic-specs-0'') [TextNode ''Specs'']]"

definition details_label :: node where
  "details_label =
     Element ''li'' None [''tab''] None
       [Element ''a'' None [''tab-title''] (Some ''#tab-dynamic-tab-custom-1-1'')
          [TextNode ''Details'']]"

definition specs_panel :: node where
  "specs_panel =
     Element ''div'' (Some ''tab-dynamic-specs-0'') [''tab-content''] None
       [Element ''dl'' None [''productView-info''] None
          [Element ''dt'' None [''productView-info-name''] None [TextNode ''Weight:''],
           Element ''dd'' None [''productView-info-value''] None [Markup ''2kg'']]]"

definition details_panel :: node where
  "details_panel =
     Element ''div'' (Some ''tab-dynamic-tab-custom-1-1'') [''tab-content''] None
       [Element ''dl'' None [''productView-info''] None
          [Element ''dt'' None [''productView-info-name''] None [TextNode ''Note:''],
           Element ''dd'' None [''productView-info-value''] None [Markup ''<b>hi</b>'']]]"

section \<open>Properties of the partitioner\<close>

lemma get_prop_not_nullish:
  "not_nullish x \<Longrightarrow> \<exists>v. get_prop x k = Inr v"
  by (cases x) (simp_all add: not_nullish_def)

lemma trigger_usable: "is_trigger x \<Longrightarrow> has_usable_name x"
  by (auto simp: is_trigger_def has_usable_name_def isNewTabTrigger_def split: if_splits)

lemma group_step_cases:
  assumes "not_nullish x"
  shows "group_step st x = Inr
     (if is_trigger x then
        st\<lparr>seenFirstTrigger := True, currentTab := Some (length (tabs st)),
           tabs := tabs st @ [new_tab x (length (tabs st))]\<rparr>
      else if has_usable_name x then
        (case (seenFirstTrigger st, currentTab st) of
           (True, Some i) \<Rightarrow> st\<lparr>tabs := (tabs st)[i := push_field (normalized x) (tabs st ! i)]\<rparr>
         | _ \<Rightarrow> st\<lparr>leadingFields := leadingFields st @ [normalized x]\<rparr>)
      else st)"
proof -
  obtain n where n: "get_prop x ''name'' = Inr n"
    using get_prop_not_nullish [OF assms] by blast
  obtain v where v: "get_prop x ''value'' = Inr v"
    using get_prop_not_nullish [OF assms] by blast
  show ?thesis
    by (simp add: group_step_def n v visit_def Let_def is_trigger_def has_usable_name_def
        attr_name_def attr_value_def new_tab_def normalized_def
        split: bool.split option.split)
qed

lemma concat_update_last:
  assumes "ts \<noteq> []"
  shows "concat (map tab_fields (ts[length ts - Suc 0 := push_field f (ts ! (length ts - Suc 0))]))
         = concat (map tab_fields ts) @ [f]"
proof -
  obtain us u where ts: "ts = us @ [u]"
    using assms by (metis append_butlast_last_id)
  show ?thesis
    by (simp add: ts push_field_def nth_append)
qed

lemma heads_update_last:
  assumes "ts \<noteq> []"
  shows "map tab_head (ts[length ts - Suc 0 := push_field f (ts ! (length ts - Suc 0))])
         = map tab_head ts"
proof -
  obtain us u where ts: "ts = us @ [u]"
    using assms by (metis append_butlast_last_id)
  show ?thesis
    by (simp add: ts push_field_def nth_append tab_head_def)
qed

lemma sum_update_last:
  assumes "ts \<noteq> []"
  shows "sum_list (map (length \<circ> tab_fields)
           (ts[length ts - Suc 0 := push_field f (ts ! (length ts - Suc 0))]))
         = Suc (sum_list (map (length \<circ> tab_fields) ts))"
proof -
  obtain us u where ts: "ts = us @ [u]"
    using assms by (metis append_butlast_last_id)
  show ?thesis
    by (simp add: ts push_field_def nth_append)
qed

text \<open>One turn of the loop: it does not throw on an element that is neither null nor
  undefined, keeps the invariant, and sends the attribute to one destination.\<close>

lemma step_inv:
  assumes "not_nullish x" "loop_inv st"
  shows "\<exists>st'. group_step st x = Inr st' \<and> loop_inv st' \<and>
    all_fields st' = all_fields st @ (if is_content x then [normalized x] else []) \<and>
    length (leadingFields st') + sum_list (map (length \<circ> tab_fields) (tabs st'))
       + (if is_trigger x then 1 else 0)
     = length (leadingFields st) + sum_list (map (length \<circ> tab_fields) (tabs st))
       + (if has_usable_name x then 1 else 0) \<and>
    map tab_head (tabs st') = map tab_head (tabs st) @
       (if is_trigger x then [tab_head (new_tab x (length (tabs st)))] else [])"
proof (cases "currentTab st")
  case None
  with assms(2) have "\<not> seenFirstTrigger st" "tabs st = []"
    by (simp_all add: loop_inv_def)
  with None show ?thesis
    using trigger_usable [of x]
    by (auto simp: group_step_cases [OF assms(1)] loop_inv_def all_fields_def is_content_def
        new_tab_def Let_def)
next
  case (Some i)
  with assms(2) have *: "seenFirstTrigger st" "tabs st \<noteq> []" "i = length (tabs st) - 1"
    by (simp_all add: loop_inv_def)
  with Some show ?thesis
    using trigger_usable [of x]
    by (auto simp: group_step_cases [OF assms(1)] loop_inv_def all_fields_def is_content_def
        new_tab_def Let_def concat_update_last sum_update_last heads_update_last)
qed

lemma forEach_inv:
  assumes "\<forall>x\<in>set xs. not_nullish x" "loop_inv st"
  shows "\<exists>st'. forEach_fields st xs = Inr st' \<and> loop_inv st' \<and>
    all_fields st' = all_fields st @ map normalized (filter is_content xs) \<and>
    length (leadingFields st') + sum_list (map (length \<circ> tab_fields) (tabs st'))
       + length (filter is_trigger xs)
     = length (leadingFields st) + sum_list (map (length \<circ> tab_fields) (tabs st))
       + length (filter has_usable_name xs) \<and>
    map tab_head (tabs st') = map tab_head (tabs st) @
       map (\<lambda>(i, x). tab_head (new_tab x i))
         (enumerate (length (tabs st)) (filter is_trigger xs))"
  using assms
proof (induction xs arbitrary: st)
  case Nil
  then show ?case by simp
next
  case (Cons x xs)
  from Cons.prems have nn: "not_nullish x" and rest: "\<forall>y\<in>set xs. not_nullish y"
    by simp_all
  from step_inv [OF nn Cons.prems(2)] obtain s1 where
    s1: "group_step st x = Inr s1" and inv1: "loop_inv s1" and
    f1: "all_fields s1 = all_fields st @ (if is_content x then [normalized x] else [])" and
    c1: "length (leadingFields s1) + sum_list (map (length \<circ> tab_fields) (tabs s1))
           + (if is_trigger x then 1 else 0)
         = length (leadingFields st) + sum_list (map (length \<circ> tab_fields) (tabs st))
           + (if has_usable_name x then 1 else 0)" and
    h1: "map tab_head (tabs s1) = map tab_head (tabs st) @
           (if is_trigger x then [tab_head (new_tab x (length (tabs st)))] else [])"
    by blast
  have "length (map tab_head (tabs s1)) = length (map tab_head (tabs st) @
           (if is_trigger x then [tab_head (new_tab x (length (tabs st)))] else []))"
    by (simp only: h1)
  then have l1: "length (tabs s1) = length (tabs st) + (if is_trigger x then 1 else 0)"
    by (simp split: if_splits)
  from Cons.IH [OF rest inv1] obtain s2 where
    s2: "forEach_fields s1 xs = Inr s2" and inv2: "loop_inv s2" and
    f2: "all_fields s2 = all_fields s1 @ map normalized (filter is_content xs)" and
    c2: "length (leadingFields s2) + sum_list (map (length \<circ> tab_fields) (tabs s2))
           + length (filter is_trigger xs)
         = length (leadingFields s1) + sum_list (map (length \<circ> tab_fields) (tabs s1))
           + length (filter has_usable_name xs)" and
    h2: "map tab_head (tabs s2) = map tab_head (tabs s1) @
           map (\<lambda>(i, x). tab_head (new_tab x i))
             (enumerate (length (tabs s1)) (filter is_trigger xs))"
    by blast
  have "forEach_fields st (x # xs) = Inr s2"
    by (simp add: s1 s2)
  moreover have "all_fields s2 = all_fields st @ map normalized (filter is_content (x # xs))"
    by (simp add: f1 f2)
  moreover have "length (leadingFields s2) + sum_list (map (length \<circ> tab_fields) (tabs s2))
       + length (filter is_trigger (x # xs))
     = length (leadingFields st) + sum_list (map (length \<circ> tab_fields) (tabs st))
       + length (filter has_usable_name (x # xs))"
  proof (cases "is_trigger x")
    case True
    with trigger_usable [of x] have "has_usable_name x" by simp
    with True c1 c2 show ?thesis by simp
  next
    case False
    with c1 c2 show ?thesis by (cases "has_usable_name x") simp_all
  qed
  moreover have "map tab_head (tabs s2) = map tab_head (tabs st) @
       map (\<lambda>(i, x). tab_head (new_tab x i))
         (enumerate (length (tabs st)) (filter is_trigger (x # xs)))"
    by (simp add: h1 h2 l1)
  ultimately show ?case
    using inv2 by blast
qed

text \<open>The whole function on an array without null or undefined elements.\<close>

lemma group_array:
  assumes "\<forall>x\<in>set xs. not_nullish x"
  shows "\<exists>r. groupCustomFieldsIntoTabs (JArr xs) = Inr r \<and>
    all_fields r = map normalized (filter is_content xs) \<and>
    length (leadingFields r) + sum_list (map (length \<circ> tab_fields) (tabs r))
       + length (filter is_trigger xs) = length (filter has_usable_name xs) \<and>
    map tab_head (tabs r) =
       map (\<lambda>(i, x). tab_head (new_tab x i)) (enumerate 0 (filter is_trigger xs))"
proof (cases "xs = []")
  case True
  then show ?thesis
    by (simp add: groupCustomFieldsIntoTabs_def empty_result_def all_fields_def)
next
  case False
  have "loop_inv initial_state"
    by (simp add: loop_inv_def initial_state_def)
  from forEach_inv [OF assms this] obtain st where
    st: "forEach_fields initial_state xs = Inr st" and
    f: "all_fields st = all_fields initial_state @ map normalized (filter is_content xs)" and
    c: "length (leadingFields st) + sum_list (map (length \<circ> tab_fields) (tabs st))
           + length (filter is_trigger xs)
         = length (leadingFields initial_state)
           + sum_list (map (length \<circ> tab_fields) (tabs initial_state))
           + length (filter has_usable_name xs)" and
    h: "map tab_head (tabs st) = map tab_head (tabs initial_state) @
           map (\<lambda>(i, x). tab_head (new_tab x i))
             (enumerate (length (tabs initial_state)) (filter is_trigger xs))"
    by blast
  let ?r = "\<lparr>leadingFields = leadingFields st, tabs = tabs st\<rparr>"
  have "groupCustomFieldsIntoTabs (JArr xs) = Inr ?r"
    using False by (simp add: groupCustomFieldsIntoTabs_def st)
  moreover have "all_fields ?r = map normalized (filter is_content xs)"
    using f by (simp add: all_fields_def initial_state_def)
  moreover have "length (leadingFields ?r) + sum_list (map (length \<circ> tab_fields) (tabs ?r))
       + length (filter is_trigger xs) = length (filter has_usable_name xs)"
    using c by (simp add: initial_state_def)
  moreover have "map tab_head (tabs ?r) =
       map (\<lambda>(i, x). tab_head (new_tab x i)) (enumerate 0 (filter is_trigger xs))"
    using h by (simp add: initial_state_def)
  ultimately show ?thesis by blast
qed

text \<open>For an attribute whose name is a string, the name is usable exactly when it is
  not empty after trimming.\<close>

lemma usable_name_of_string:
  assumes "get_prop x ''name'' = Inr (JStr s)"
  shows "has_usable_name x \<longleftrightarrow> trim s \<noteq> []"
proof (cases "s = []")
  case True
  with assms show ?thesis
    by (simp add: has_usable_name_def attr_name_def trimmed_name_def trim_def)
next
  case False
  with assms show ?thesis
    by (simp add: has_usable_name_def attr_name_def trimmed_name_def)
qed

text \<open>
  C1. For every array of attributes (none of them null or undefined), the partitioner
  returns, and the number of leading fields plus the number of fields of all tabs plus
  the number of trigger sentinels is the number of attributes with a usable name: an
  attribute without one is counted in no destination.
\<close>

theorem partition_counts_usable_names:
  assumes "\<forall>x\<in>set xs. not_nullish x"
  shows "\<exists>r. groupCustomFieldsIntoTabs (JArr xs) = Inr r \<and>
    length (leadingFields r) + sum_list (map (length \<circ> tab_fields) (tabs r))
       + length (filter is_trigger xs) = length (filter has_usable_name xs)"
  using group_array [OF assms] by blast

text \<open>On the list with malformed entries: six elements, three with a usable name, one of
  them a trigger.\<close>

theorem partition_counts_usable_names_witness:
  "list_all not_nullish malformed_fields \<and>
   (\<exists>r. groupCustomFieldsIntoTabs (JArr malformed_fields) = Inr r \<and>
    length (leadingFields r) + sum_list (map (length \<circ> tab_fields) (tabs r))
       + length (filter is_trigger malformed_fields)
     = length (filter has_usable_name malformed_fields)) \<and>
   length (filter has_usable_name malformed_fields) = 3 \<and>
   length (filter is_trigger malformed_fields) = 1"
proof -
  have h: "\<forall>x\<in>set malformed_fields. not_nullish x"
    by (simp add: malformed_fields_def attribute_def not_nullish_def)
  have "length (filter has_usable_name malformed_fields) = 3"
    unfolding malformed_fields_def attribute_def by code_simp
  moreover have "length (filter is_trigger malformed_fields) = 1"
    unfolding malformed_fields_def attribute_def by code_simp
  ultimately show ?thesis
    using partition_counts_usable_names [OF h] h by (simp add: list_all_iff)
qed

subsection \<open>The partition in the words of the specification\<close>

lemma trim_Nil [simp]: "trim [] = []"
  by (simp add: trim_def)

lemma trim_idem [simp]: "trim (trim s) = trim s"
proof -
  define t where "t = dropWhile is_space s"
  define u where "u = dropWhile is_space (rev t)"
  have "rev u = take (length t - length (takeWhile is_space (rev t))) t"
    by (simp add: u_def dropWhile_eq_drop rev_drop)
  moreover have "t = [] \<or> \<not> is_space (hd t)"
    unfolding t_def using hd_dropWhile by blast
  ultimately have "rev u = [] \<or> \<not> is_space (hd (rev u))"
    by (metis hd_take take_eq_Nil neq0_conv)
  then have "dropWhile is_space (rev u) = rev u"
    by (simp add: dropWhile_eq_self_iff)
  moreover have "dropWhile is_space u = u"
    by (simp add: u_def)
  ultimately have "trim (rev u) = rev u"
    by (simp add: trim_def)
  then show ?thesis
    by (simp add: trim_def u_def t_def)
qed

lemma attribute_entry_name:
  assumes "attribute_entry x"
  shows "attr_name x = (if name_text x = [] then prop_of x ''name'' else JStr (trim (name_text x)))"
proof -
  from assms obtain n where n: "get_prop x ''name'' = Inr n"
    using get_prop_not_nullish [of x] by (auto simp: attribute_entry_def)
  with assms have "text_or_missing n"
    by (simp add: attribute_entry_def prop_of_def)
  then show ?thesis
    by (cases n)
       (simp_all add: text_or_missing_def attr_name_def n trimmed_name_def name_text_def
          prop_of_def text_of_def)
qed

lemma attribute_entry_usable:
  assumes "attribute_entry x"
  shows "has_usable_name x \<longleftrightarrow> usable_name_spec x"
proof (cases "name_text x = []")
  case True
  from assms have "text_or_missing (prop_of x ''name'')"
    by (simp add: attribute_entry_def)
  with True have "\<not> truthy (prop_of x ''name'')"
    by (cases "prop_of x ''name''") (simp_all add: text_or_missing_def name_text_def text_of_def)
  with True show ?thesis
    by (simp add: has_usable_name_def attribute_entry_name [OF assms] usable_name_spec_def)
next
  case False
  then show ?thesis
    by (simp add: has_usable_name_def attribute_entry_name [OF assms] usable_name_spec_def)
qed

lemma lower_newtab_not_empty: "toLowerCase s = ''__newtab'' \<Longrightarrow> s \<noteq> []"
  by (auto simp: toLowerCase_def)

lemma attribute_entry_trigger:
  assumes "attribute_entry x"
  shows "is_trigger x \<longleftrightarrow> is_trigger_spec x"
proof (cases "usable_name_spec x")
  case False
  then have "\<not> is_trigger_spec x"
    using lower_newtab_not_empty by (auto simp: usable_name_spec_def is_trigger_spec_def)
  moreover from False have "\<not> is_trigger x"
    using trigger_usable [of x] attribute_entry_usable [OF assms] by blast
  ultimately show ?thesis by simp
next
  case True
  then have ne: "name_text x \<noteq> []" "trim (name_text x) \<noteq> []"
    by (auto simp: usable_name_spec_def)
  note trim_idem
  with ne show ?thesis
    by (simp add: is_trigger_def attribute_entry_name [OF assms] isNewTabTrigger_def
        is_trigger_spec_def NEWTAB_TRIGGER_NAME_def)
qed


lemma attribute_entry_value:
  assumes "attribute_entry x"
  shows "attr_value x = JStr (value_text x)"
proof -
  from assms obtain v where v: "get_prop x ''value'' = Inr v"
    using get_prop_not_nullish [of x] by (auto simp: attribute_entry_def)
  with assms have "text_or_missing v"
    by (simp add: attribute_entry_def prop_of_def)
  then show ?thesis
    by (cases v)
       (simp_all add: text_or_missing_def attr_value_def v value_or_empty_def value_text_def
          prop_of_def text_of_def)
qed

lemma attribute_entry_normalized:
  assumes "attribute_entry x" "usable_name_spec x"
  shows "normalized x = normalized_spec x"
  using assms(2)
  by (auto simp: normalized_def normalized_spec_def attribute_entry_name [OF assms(1)]
      attribute_entry_value [OF assms(1)] usable_name_spec_def)

text \<open>The partition of a list of attribute entries, in the words of the specification.\<close>

lemma group_attribute_entries:
  assumes "\<forall>x\<in>set xs. attribute_entry x"
  shows "\<exists>r. groupCustomFieldsIntoTabs (JArr xs) = Inr r \<and>
    all_fields r =
      map normalized_spec (filter (\<lambda>x. usable_name_spec x \<and> \<not> is_trigger_spec x) xs)"
proof -
  from assms have nn: "\<forall>x\<in>set xs. not_nullish x"
    by (simp add: attribute_entry_def)
  from group_array [OF nn] obtain r where
    r: "groupCustomFieldsIntoTabs (JArr xs) = Inr r" and
    f: "all_fields r = map normalized (filter is_content xs)"
    by blast
  have "filter is_content xs = filter (\<lambda>x. usable_name_spec x \<and> \<not> is_trigger_spec x) xs"
    using assms
    by (intro filter_cong refl)
       (simp add: is_content_def attribute_entry_usable attribute_entry_trigger)
  moreover have "map normalized (filter (\<lambda>x. usable_name_spec x \<and> \<not> is_trigger_spec x) xs)
      = map normalized_spec (filter (\<lambda>x. usable_name_spec x \<and> \<not> is_trigger_spec x) xs)"
    using assms by (intro map_cong refl) (simp add: attribute_entry_normalized)
  ultimately show ?thesis
    using r f by simp
qed

text \<open>
  C2. For every array of attribute entries, the leading fields followed by the fields of
  each tab in tab order are exactly the entries with a usable name (not empty after
  trimming) that are not triggers, each with its name trimmed and its value, the empty
  string for a null or absent one, in the order they have in the input.
\<close>

theorem partition_order_stable:
  assumes "\<forall>x\<in>set xs. attribute_entry x"
  shows "\<exists>r. groupCustomFieldsIntoTabs (JArr xs) = Inr r \<and>
    leadingFields r @ concat (map tab_fields (tabs r)) =
      map normalized_spec (filter (\<lambda>x. usable_name_spec x \<and> \<not> is_trigger_spec x) xs)"
  using group_attribute_entries [OF assms] unfolding all_fields_def by blast

text \<open>Padded, blank, null and absent names, null and absent values, a padded trigger.\<close>

theorem partition_order_stable_witness:
  "list_all attribute_entry messy_attributes \<and>
   groupCustomFieldsIntoTabs (JArr messy_attributes) = Inr messy_result \<and>
   (\<exists>r. groupCustomFieldsIntoTabs (JArr messy_attributes) = Inr r \<and>
      leadingFields r @ concat (map tab_fields (tabs r)) =
        [\<lparr>field_name = JStr ''Color'', field_value = JStr ''Red''\<rparr>,
         \<lparr>field_name = JStr ''Size'', field_value = JStr []\<rparr>,
         \<lparr>field_name = JStr ''Weight'', field_value = JStr ''2kg''\<rparr>,
         \<lparr>field_name = JStr ''Note'', field_value = JStr []\<rparr>])"
proof -
  have h: "\<forall>x\<in>set messy_attributes. attribute_entry x"
    unfolding messy_attributes_def attribute_def by code_simp
  have "map normalized_spec
          (filter (\<lambda>x. usable_name_spec x \<and> \<not> is_trigger_spec x) messy_attributes) =
        [\<lparr>field_name = JStr ''Color'', field_value = JStr ''Red''\<rparr>,
         \<lparr>field_name = JStr ''Size'', field_value = JStr []\<rparr>,
         \<lparr>field_name = JStr ''Weight'', field_value = JStr ''2kg''\<rparr>,
         \<lparr>field_name = JStr ''Note'', field_value = JStr []\<rparr>]"
    unfolding messy_attributes_def attribute_def by code_simp
  moreover have "groupCustomFieldsIntoTabs (JArr messy_attributes) = Inr messy_result"
    unfolding messy_attributes_def attribute_def messy_result_def by code_simp
  ultimately show ?thesis
    using partition_order_stable [OF h] h by (simp add: list_all_iff)
qed

text \<open>
  C3, as the code has it. For every array of attributes (none of them null or
  undefined) there is one tab per trigger, in order. The label of the tab at position
  \<open>i\<close> is the value of its trigger, trimmed when it is a string and converted to a string
  otherwise, and \<open>Details\<close> when that is empty. Its slug is derived from that trimmed
  value, before the default is applied: lower-cased, trimmed, every run of white space
  turned into one hyphen, every character outside \<open>[a-z0-9-]\<close> removed; when nothing is
  left, the slug is \<open>tab-custom-\<close> followed by \<open>i\<close>.
\<close>

theorem tab_label_and_slug:
  assumes "\<forall>x\<in>set xs. not_nullish x"
  shows "\<exists>r. groupCustomFieldsIntoTabs (JArr xs) = Inr r \<and>
    length (tabs r) = length (filter is_trigger xs) \<and>
    (\<forall>i<length (tabs r).
       let lbl = trigger_label (attr_value (filter is_trigger xs ! i));
           s = strip_non_slug (replace_spaces (trim (toLowerCase lbl)))
       in label (tabs r ! i) = (if lbl = [] then ''Details'' else lbl) \<and>
          slug (tabs r ! i) = (if s = [] then ''tab-custom-'' @ decimal i else s))"
proof -
  let ?trig = "filter is_trigger xs"
  from group_array [OF assms] obtain r where
    r: "groupCustomFieldsIntoTabs (JArr xs) = Inr r" and
    h: "map tab_head (tabs r) = map (\<lambda>(i, x). tab_head (new_tab x i)) (enumerate 0 ?trig)"
    by blast
  have "length (map tab_head (tabs r))
        = length (map (\<lambda>(i, x). tab_head (new_tab x i)) (enumerate 0 ?trig))"
    by (simp only: h)
  then have len: "length (tabs r) = length ?trig"
    by simp
  have "label (tabs r ! i) = label (new_tab (?trig ! i) i) \<and>
        slug (tabs r ! i) = slug (new_tab (?trig ! i) i)" if "i < length (tabs r)" for i
  proof -
    have "map tab_head (tabs r) ! i
          = map (\<lambda>(i, x). tab_head (new_tab x i)) (enumerate 0 ?trig) ! i"
      by (simp only: h)
    with that len have "tab_head (tabs r ! i) = tab_head (new_tab (?trig ! i) i)"
      by (simp add: nth_enumerate_eq)
    then show ?thesis
      by (simp add: tab_head_def)
  qed
  then have "\<forall>i<length (tabs r).
       let lbl = trigger_label (attr_value (?trig ! i));
           s = strip_non_slug (replace_spaces (trim (toLowerCase lbl)))
       in label (tabs r ! i) = (if lbl = [] then ''Details'' else lbl) \<and>
          slug (tabs r ! i) = (if s = [] then ''tab-custom-'' @ decimal i else s)"
    by (simp add: new_tab_def slugify_def Let_def)
  with r len show ?thesis by blast
qed

theorem tab_label_and_slug_witness:
  "list_all not_nullish sample_fields \<and>
   (\<exists>r. groupCustomFieldsIntoTabs (JArr sample_fields) = Inr r \<and>
    length (tabs r) = length (filter is_trigger sample_fields) \<and>
    (\<forall>i<length (tabs r).
       let lbl = trigger_label (attr_value (filter is_trigger sample_fields ! i));
           s = strip_non_slug (replace_spaces (trim (toLowerCase lbl)))
       in label (tabs r ! i) = (if lbl = [] then ''Details'' else lbl) \<and>
          slug (tabs r ! i) = (if s = [] then ''tab-custom-'' @ decimal i else s))) \<and>
   length (filter is_trigger sample_fields) = 2"
proof -
  have h: "\<forall>x\<in>set sample_fields. not_nullish x"
    by (simp add: sample_fields_def attribute_def not_nullish_def)
  have "length (filter is_trigger sample_fields) = 2"
    unfolding sample_fields_def attribute_def by code_simp
  then show ?thesis
    using tab_label_and_slug [OF h] h by (simp add: list_all_iff)
qed

text \<open>
  C3 as the claim words it fails: a trigger with a blank value makes a tab labelled
  \<open>Details\<close> whose slug is \<open>tab-custom-0\<close>, while the slug derived from the label of the
  tab is \<open>details\<close>, which is not empty.
\<close>

theorem slug_from_label_counterexample:
  "groupCustomFieldsIntoTabs (JArr [attribute ''__newtab'' '' ''])
     = Inr \<lparr>leadingFields = [],
            tabs = [\<lparr>label = ''Details'', slug = ''tab-custom-0'', tab_fields = []\<rparr>]\<rparr>
   \<and> slug_of_label ''Details'' 0 = ''details''
   \<and> slug \<lparr>label = ''Details'', slug = ''tab-custom-0'', tab_fields = []\<rparr>
       \<noteq> slug_of_label (label \<lparr>label = ''Details'', slug = ''tab-custom-0'', tab_fields = []\<rparr>) 0"
  unfolding attribute_def by code_simp

subsection \<open>Rendered identifiers\<close>

lemma digit_char_inj:
  "a < 10 \<Longrightarrow> b < 10 \<Longrightarrow> digit_char a = digit_char b \<Longrightarrow> a = b"
  unfolding digit_char_def
  by (subst (asm) nth_eq_iff_index_eq) simp_all

lemma digit_char_not_hyphen: "d < 10 \<Longrightarrow> digit_char d \<noteq> CHR ''-''"
proof -
  assume "d < 10"
  then have "digit_char d \<in> set ''0123456789''"
    unfolding digit_char_def by (intro nth_mem) simp
  then show ?thesis by auto
qed

lemma decimal_not_empty: "decimal n \<noteq> []"
  by (subst decimal.simps) simp

lemma decimal_no_hyphen: "CHR ''-'' \<notin> set (decimal n)"
proof (induction n rule: decimal.induct)
  case (1 n)
  show ?case
  proof (cases "n < 10")
    case True
    then show ?thesis
      using digit_char_not_hyphen [of n] by (subst decimal.simps) auto
  next
    case False
    then show ?thesis
      using 1 digit_char_not_hyphen [of "n mod 10"] by (subst decimal.simps) auto
  qed
qed

text \<open>Different numbers have different decimal digits.\<close>

lemma decimal_inj: "decimal m = decimal n \<Longrightarrow> m = n"
proof (induction m arbitrary: n rule: decimal.induct)
  case (1 m)
  show ?case
  proof (cases "m < 10")
    case True
    note m = this
    show ?thesis
    proof (cases "n < 10")
      case True
      with m 1(2) show ?thesis
        by (simp add: decimal.simps [of m] decimal.simps [of n] digit_char_inj)
    next
      case False
      with m 1(2) decimal_not_empty [of "n div 10"] show ?thesis
        by (simp add: decimal.simps [of m] decimal.simps [of n])
    qed
  next
    case False
    note m = this
    show ?thesis
    proof (cases "n < 10")
      case True
      with m 1(2) decimal_not_empty [of "m div 10"] show ?thesis
        by (simp add: decimal.simps [of m] decimal.simps [of n])
    next
      case False
      with m 1(2) have "decimal (m div 10) = decimal (n div 10)"
        and "digit_char (m mod 10) = digit_char (n mod 10)"
        by (simp_all add: decimal.simps [of m] decimal.simps [of n])
      with 1(1) [OF m] have "m div 10 = n div 10" "m mod 10 = n mod 10"
        by (simp_all add: digit_char_inj)
      then show ?thesis
        by (metis div_mult_mod_eq)
    qed
  qed
qed

text \<open>What follows the last hyphen of a string is determined by the string.\<close>

lemma last_segment:
  assumes "a @ CHR ''-'' # u = b @ CHR ''-'' # v" "CHR ''-'' \<notin> set u" "CHR ''-'' \<notin> set v"
  shows "u = v"
proof -
  have "takeWhile (\<lambda>c. c \<noteq> CHR ''-'') (rev u @ CHR ''-'' # rev a) = rev u"
    using assms(2) by (auto simp: takeWhile_tail)
  moreover have "takeWhile (\<lambda>c. c \<noteq> CHR ''-'') (rev v @ CHR ''-'' # rev b) = rev v"
    using assms(3) by (auto simp: takeWhile_tail)
  moreover have "rev u @ CHR ''-'' # rev a = rev v @ CHR ''-'' # rev b"
    using arg_cong [OF assms(1), of rev] by simp
  ultimately show ?thesis by simp
qed

lemma rendered_id_inj: "rendered_id s i = rendered_id t j \<Longrightarrow> i = j"
proof -
  assume "rendered_id s i = rendered_id t j"
  then have "slug s @ CHR ''-'' # decimal i = slug t @ CHR ''-'' # decimal j"
    by (simp add: rendered_id_def)
  then have "decimal i = decimal j"
    by (rule last_segment) (simp_all add: decimal_no_hyphen)
  then show ?thesis by (rule decimal_inj)
qed

lemma panel_ids: "map elem_id (content_fragment ts) = map Some (rendered_ids ts)"
  by (simp add: content_fragment_def rendered_ids_def tab_panel_def split_def)

text \<open>
  C4. For every list of tabs, whatever their slugs, the panels built for two different
  positions carry the identifiers rendered for these positions, and the two
  identifiers are different strings.
\<close>

theorem rendered_ids_distinct:
  assumes "i < length ts" "j < length ts" "i \<noteq> j"
  shows "elem_id (content_fragment ts ! i) = Some (rendered_ids ts ! i) \<and>
         elem_id (content_fragment ts ! j) = Some (rendered_ids ts ! j) \<and>
         rendered_ids ts ! i \<noteq> rendered_ids ts ! j"
proof -
  have "length (content_fragment ts) = length ts" "length (rendered_ids ts) = length ts"
    by (simp_all add: content_fragment_def rendered_ids_def)
  with assms(1,2) have "elem_id (content_fragment ts ! i) = Some (rendered_ids ts ! i)"
    "elem_id (content_fragment ts ! j) = Some (rendered_ids ts ! j)"
    using arg_cong [OF panel_ids [of ts], of "\<lambda>l. l ! i"]
      arg_cong [OF panel_ids [of ts], of "\<lambda>l. l ! j"]
    by simp_all
  moreover have "rendered_ids ts ! i \<noteq> rendered_ids ts ! j"
    using assms rendered_id_inj [of "ts ! i" i "ts ! j" j]
    by (auto simp: rendered_ids_def nth_enumerate_eq)
  ultimately show ?thesis by simp
qed

text \<open>Two tabs with the same slug.\<close>

theorem rendered_ids_distinct_witness:
  "rendered_ids [\<lparr>label = ''Info'', slug = ''info'', tab_fields = []\<rparr>,
                 \<lparr>label = ''Info'', slug = ''info'', tab_fields = []\<rparr>] ! 0
   \<noteq> rendered_ids [\<lparr>label = ''Info'', slug = ''info'', tab_fields = []\<rparr>,
                   \<lparr>label = ''Info'', slug = ''info'', tab_fields = []\<rparr>] ! 1"
  using rendered_ids_distinct
    [of 0 "[\<lparr>label = ''Info'', slug = ''info'', tab_fields = []\<rparr>,
            \<lparr>label = ''Info'', slug = ''info'', tab_fields = []\<rparr>]" 1]
  by simp

text \<open>
  C5. The example of the specification: one leading field, then a tab labelled \<open>Specs\<close>
  and a tab labelled \<open>Details\<close>, each with one field; the second trigger is recognised
  although its name is written \<open>__NewTab\<close>.
\<close>

theorem sample_partition:
  "groupCustomFieldsIntoTabs (JArr sample_fields) =
     Inr \<lparr>leadingFields = [\<lparr>field_name = JStr ''Color'', field_value = JStr ''Red''\<rparr>],
          tabs = [\<lparr>label = ''Specs'', slug = ''specs'',
                   tab_fields = [\<lparr>field_name = JStr ''Weight'', field_value = JStr ''2kg''\<rparr>]\<rparr>,
                  \<lparr>label = ''Details'', slug = ''tab-custom-1'',
                   tab_fields = [\<lparr>field_name = JStr ''Note'', field_value = JStr ''<b>hi</b>''\<rparr>]\<rparr>]\<rparr>"
  unfolding sample_fields_def attribute_def by code_simp

section \<open>Properties of the entry point\<close>

lemma truthy_not_nullish: "truthy v \<Longrightarrow> not_nullish v"
  by (cases v) (simp_all add: not_nullish_def)

lemma get_prop_truthy: "truthy ctx \<Longrightarrow> get_prop ctx k = Inr (context_field ctx k)"
  using get_prop_not_nullish [OF truthy_not_nullish, of ctx k]
  by (auto simp: context_field_def)

lemma context_field_falsy: "\<not> truthy ctx \<Longrightarrow> context_field ctx k = JUndefined"
  by (cases ctx) (simp_all add: context_field_def)

lemma group_non_array: "\<not> isArray v \<Longrightarrow> groupCustomFieldsIntoTabs v = Inr empty_result"
  by (cases v) (simp_all add: groupCustomFieldsIntoTabs_def isArray_def)

lemma group_empty_array: "groupCustomFieldsIntoTabs (JArr []) = Inr empty_result"
  by (simp add: groupCustomFieldsIntoTabs_def)

text \<open>The entry point once its guard is passed.\<close>

lemma init_active:
  assumes "truthy ctx" "truthy (context_field ctx ''productUseDynamicCustomFieldTabs'')"
    "truthy (context_field ctx ''productCustomFields'')"
  shows "initDynamicCustomFieldTabs ctx pg =
     (case groupCustomFieldsIntoTabs (context_field ctx ''productCustomFields'') of
        Inl e \<Rightarrow> Inl e
      | Inr r \<Rightarrow>
          (if tabs r = [] then Inr (injectLeadingCustomFields (leadingFields r) pg)
           else Inr (bindDynamicTabClicks
                  (injectDynamicTabs (tabs r) (injectLeadingCustomFields (leadingFields r) pg)))))"
  using assms
  by (simp add: initDynamicCustomFieldTabs_def get_prop_truthy Let_def split: sum.split)

lemma init_inactive:
  assumes "\<not> truthy ctx \<or> \<not> truthy (context_field ctx ''productUseDynamicCustomFieldTabs'')
    \<or> \<not> truthy (context_field ctx ''productCustomFields'')"
  shows "initDynamicCustomFieldTabs ctx pg = Inr pg"
proof (cases "truthy ctx")
  case False
  then show ?thesis by (simp add: initDynamicCustomFieldTabs_def)
next
  case True
  with assms show ?thesis
    by (auto simp: initDynamicCustomFieldTabs_def get_prop_truthy)
qed

text \<open>
  C7. When the activation flag is falsy, or the attribute list is falsy or absent, or it
  is the empty array, or it is not an array, the entry point returns without an error
  and leaves the page as it was: the document is the same and no listener was added.
\<close>

theorem init_does_nothing_when_inactive:
  assumes "\<not> truthy (context_field ctx ''productUseDynamicCustomFieldTabs'')
    \<or> \<not> truthy (context_field ctx ''productCustomFields'')
    \<or> context_field ctx ''productCustomFields'' = JArr []
    \<or> \<not> isArray (context_field ctx ''productCustomFields'')"
  shows "initDynamicCustomFieldTabs ctx pg = Inr pg"
proof (cases "truthy ctx \<and> truthy (context_field ctx ''productUseDynamicCustomFieldTabs'')
    \<and> truthy (context_field ctx ''productCustomFields'')")
  case False
  then show ?thesis
    by (intro init_inactive) blast
next
  case True
  with assms have "groupCustomFieldsIntoTabs (context_field ctx ''productCustomFields'')
      = Inr empty_result"
    using group_non_array group_empty_array by auto
  with True show ?thesis
    by (simp add: init_active empty_result_def injectLeadingCustomFields_def)
qed


text \<open>A false flag, an absent list, an empty list, a string for a list, a null context.\<close>

theorem init_does_nothing_when_inactive_witness:
  "initDynamicCustomFieldTabs (make_context (JBool False) (JArr sample_fields)) template_page
     = Inr template_page \<and>
   initDynamicCustomFieldTabs (JObj [(''productUseDynamicCustomFieldTabs'', JBool True)])
     template_page = Inr template_page \<and>
   initDynamicCustomFieldTabs (make_context (JBool True) (JArr [])) template_page
     = Inr template_page \<and>
   initDynamicCustomFieldTabs (make_context (JBool True) (JStr ''Color=Red'')) template_page
     = Inr template_page \<and>
   initDynamicCustomFieldTabs JNull template_page = Inr template_page"
proof -
  have "\<not> truthy (context_field (make_context (JBool False) (JArr sample_fields))
      ''productUseDynamicCustomFieldTabs'')"
    by (simp add: context_field_def make_context_def)
  moreover have "\<not> truthy (context_field (JObj [(''productUseDynamicCustomFieldTabs'', JBool True)])
      ''productCustomFields'')"
    by (simp add: context_field_def)
  moreover have "context_field (make_context (JBool True) (JArr [])) ''productCustomFields'' = JArr []"
    by (simp add: context_field_def make_context_def)
  moreover have "\<not> isArray (context_field (make_context (JBool True) (JStr ''Color=Red''))
      ''productCustomFields'')"
    by (simp add: context_field_def make_context_def isArray_def)
  moreover have "\<not> truthy (context_field JNull ''productCustomFields'')"
    by (simp add: context_field_def)
  ultimately show ?thesis
    using init_does_nothing_when_inactive by blast
qed


lemma inject_leading_listeners:
  "click_listeners (injectLeadingCustomFields lf pg) = click_listeners pg"
  by (simp add: injectLeadingCustomFields_def split: option.split)

lemma inject_tabs_listeners:
  "click_listeners (injectDynamicTabs ts pg) = click_listeners pg"
  by (simp add: injectDynamicTabs_def Let_def split: option.split)

text \<open>
  C9. When the partition of the attribute list has no tabs, the entry point returns with
  as many click listeners as before, whether or not leading fields were put into the
  document.
\<close>

theorem no_tabs_no_listener:
  assumes "groupCustomFieldsIntoTabs (context_field ctx ''productCustomFields'') = Inr r"
    and "tabs r = []"
  shows "\<exists>pg'. initDynamicCustomFieldTabs ctx pg = Inr pg' \<and>
           click_listeners pg' = click_listeners pg"
proof (cases "truthy ctx \<and> truthy (context_field ctx ''productUseDynamicCustomFieldTabs'')
    \<and> truthy (context_field ctx ''productCustomFields'')")
  case False
  then have "initDynamicCustomFieldTabs ctx pg = Inr pg"
    by (intro init_inactive) blast
  then show ?thesis by simp
next
  case True
  then show ?thesis
    using assms by (simp add: init_active inject_leading_listeners)
qed

text \<open>One leading field and no trigger: the document changes, the listeners do not.\<close>

theorem no_tabs_no_listener_witness:
  "(\<exists>pg'. initDynamicCustomFieldTabs leading_only_context template_page = Inr pg' \<and>
      click_listeners pg' = click_listeners template_page) \<and>
   initDynamicCustomFieldTabs leading_only_context template_page \<noteq> Inr template_page"
proof -
  have g: "groupCustomFieldsIntoTabs (context_field leading_only_context ''productCustomFields'')
      = Inr \<lparr>leadingFields = [\<lparr>field_name = JStr ''Color'', field_value = JStr ''Red''\<rparr>],
             tabs = []\<rparr>"
    unfolding leading_only_context_def make_context_def attribute_def by code_simp
  have "initDynamicCustomFieldTabs leading_only_context template_page \<noteq> Inr template_page"
    unfolding leading_only_context_def make_context_def attribute_def template_page_def
      template_document_def
    by code_simp
  with no_tabs_no_listener [OF g, of template_page] show ?thesis
    by simp
qed

lemma isArray_cases: "isArray v \<Longrightarrow> \<exists>xs. v = JArr xs"
  by (cases v) (simp_all add: isArray_def)

lemma inject_leading_no_anchor:
  "getElementById ''product-leading-custom-fields-anchor'' (document pg) = None \<Longrightarrow>
   injectLeadingCustomFields lf pg = pg"
  by (simp add: injectLeadingCustomFields_def)

lemma inject_tabs_no_anchor:
  "getElementById ''product-dynamic-cf-tabs-anchor'' (document pg) = None \<or>
   getElementById ''product-dynamic-cf-content-anchor'' (document pg) = None \<Longrightarrow>
   injectDynamicTabs ts pg = pg"
  by (auto simp: injectDynamicTabs_def split: option.split)


section \<open>Properties of the click handler\<close>

lemma node_at_Cons:
  "node_at ns (k # p) =
     (if k < length ns then (if p = [] then Some (ns ! k) else node_at (children (ns ! k)) p)
      else None)"
  by (cases p) simp_all

lemma node_at_Nil [simp]: "node_at [] p = None"
  by (cases p) (simp_all add: node_at_Cons)

lemma update_classes_Cons:
  "update_classes f (k # p) ns =
     (if k < length ns
      then ns[k := (if p = [] then with_classes f (ns ! k)
                    else with_children (update_classes f p) (ns ! k))]
      else ns)"
  by (cases p) simp_all

lemma length_update_classes [simp]: "length (update_classes f p ns) = length ns"
  by (cases p) (simp_all add: update_classes_Cons)

lemma children_with_classes [simp]: "children (with_classes f n) = children n"
  by (cases n) simp_all

lemma children_with_children [simp]: "children (with_children g n) = (case n of Element t i cl h cs \<Rightarrow> g cs | _ \<Rightarrow> [])"
  by (cases n) simp_all

lemma classes_with_children [simp]: "classes (with_children g n) = classes n"
  by (cases n) simp_all

lemma tag_with_children [simp]: "tag (with_children g n) = tag n"
  by (cases n) simp_all

lemma tag_with_classes [simp]: "tag (with_classes f n) = tag n"
  by (cases n) simp_all

lemma node_at_update_same:
  "node_at (update_classes f p ns) p = map_option (with_classes f) (node_at ns p)"
proof (induction p arbitrary: ns)
  case Nil
  then show ?case by simp
next
  case (Cons k p)
  show ?case
  proof (cases "p = []")
    case True
    then show ?thesis by (simp add: node_at_Cons update_classes_Cons)
  next
    case False
    then show ?thesis
      using Cons.IH [of "children (ns ! k)"]
      by (cases "ns ! k") (simp_all add: node_at_Cons update_classes_Cons)
  qed
qed

lemma node_at_update_other:
  "q \<noteq> p \<Longrightarrow>
   map_option (\<lambda>n. (tag n, classes n)) (node_at (update_classes f p ns) q)
     = map_option (\<lambda>n. (tag n, classes n)) (node_at ns q)"
proof (induction p arbitrary: ns q)
  case Nil
  then show ?case by simp
next
  case (Cons k p)
  show ?case
  proof (cases q)
    case Nil
    then show ?thesis by simp
  next
    case (Cons j q')
    show ?thesis
    proof (cases "j = k")
      case False
      then show ?thesis
        by (simp add: Cons node_at_Cons update_classes_Cons)
    next
      case True
      note jk = this
      show ?thesis
      proof (cases "k < length ns")
        case False
        then show ?thesis by (simp add: Cons jk node_at_Cons update_classes_Cons)
      next
        case True
        note k = this
        show ?thesis
        proof (cases "p = []")
          case True
          with Cons.prems \<open>q = j # q'\<close> jk have "q' \<noteq> []" by simp
          with True k show ?thesis
            by (simp add: Cons jk node_at_Cons update_classes_Cons)
        next
          case False
          note p = this
          show ?thesis
          proof (cases "q' = []")
            case True
            with p k show ?thesis
              by (simp add: Cons jk node_at_Cons update_classes_Cons)
          next
            case False
            from Cons.prems \<open>q = j # q'\<close> jk have "q' \<noteq> p" by simp
            from Cons.IH [OF this, of "children (ns ! k)"] p False k show ?thesis
              by (cases "ns ! k") (simp_all add: Cons jk node_at_Cons update_classes_Cons)
          qed
        qed
      qed
    qed
  qed
qed


lemma has_class_at_update:
  "has_class_at c' (update_classes f p doc) q =
     (if q = p then (case node_at doc p of Some n \<Rightarrow> c' \<in> set (classes (with_classes f n)) | None \<Rightarrow> False)
      else has_class_at c' doc q)"
proof (cases "q = p")
  case True
  then show ?thesis
    by (simp add: has_class_at_def node_at_update_same split: option.split)
next
  case False
  from node_at_update_other [OF this, of f doc] have
    "map_option classes (node_at (update_classes f p doc) q) = map_option classes (node_at doc q)"
    by (cases "node_at (update_classes f p doc) q"; cases "node_at doc q") simp_all
  with False show ?thesis
    by (cases "node_at (update_classes f p doc) q"; cases "node_at doc q")
       (simp_all add: has_class_at_def)
qed

lemma is_element_at_update [simp]:
  "is_element_at (update_classes f p doc) q = is_element_at doc q"
proof (cases "q = p")
  case True
  then show ?thesis
    by (simp add: is_element_at_def node_at_update_same split: option.split)
next
  case False
  from node_at_update_other [OF this, of f doc] have
    "map_option tag (node_at (update_classes f p doc) q) = map_option tag (node_at doc q)"
    by (cases "node_at (update_classes f p doc) q"; cases "node_at doc q") simp_all
  then show ?thesis
    by (cases "node_at (update_classes f p doc) q"; cases "node_at doc q")
       (simp_all add: is_element_at_def)
qed

lemma classes_remove [simp]: "classes (with_classes (removeAll c) n) = removeAll c (classes n)"
  by (cases n) simp_all

lemma classes_add:
  "classes (with_classes f n) = (if tag n \<noteq> None then f (classes n) else [])"
  by (cases n) simp_all

lemma class_member_tag: "c \<in> set (classes n) \<Longrightarrow> \<exists>y. tag n = Some y"
  by (cases n) simp_all

lemma has_class_remove_one:
  "has_class_at c' (update_classes (removeAll c) p doc) q
     = (has_class_at c' doc q \<and> \<not> (c' = c \<and> q = p))"
  by (simp only: has_class_at_update) (auto simp: has_class_at_def split: option.split)

lemma has_class_add_one:
  "has_class_at c' (update_classes (\<lambda>cl. if c \<in> set cl then cl else cl @ [c]) p doc) q
     = (has_class_at c' doc q \<or> (c' = c \<and> q = p \<and> is_element_at doc q))"
  by (simp only: has_class_at_update)
     (auto simp: has_class_at_def is_element_at_def classes_add class_member_tag
       split: option.split)

lemma is_element_removeClass [simp]:
  "is_element_at (removeClass c ps doc) q = is_element_at doc q"
  unfolding removeClass_def by (induction ps arbitrary: doc) simp_all

lemma is_element_addClass [simp]:
  "is_element_at (addClass c ps doc) q = is_element_at doc q"
  unfolding addClass_def by (induction ps arbitrary: doc) simp_all

lemma has_class_removeClass:
  "has_class_at c' (removeClass c ps doc) q
     = (has_class_at c' doc q \<and> \<not> (c' = c \<and> q \<in> set ps))"
  unfolding removeClass_def
  by (induction ps arbitrary: doc) (auto simp: has_class_remove_one)

lemma has_class_addClass:
  "has_class_at c' (addClass c ps doc) q
     = (has_class_at c' doc q \<or> (c' = c \<and> q \<in> set ps \<and> is_element_at doc q))"
  unfolding addClass_def
  by (induction ps arbitrary: doc) (auto simp: has_class_add_one)

lemma has_class_is_element: "has_class_at c doc q \<Longrightarrow> is_element_at doc q"
  by (auto simp: has_class_at_def is_element_at_def class_member_tag split: option.splits)

lemma find_in_sound:
  "find_in_node a n = Some p \<Longrightarrow>
     (p = [] \<and> elem_id n = Some a) \<or>
     (p \<noteq> [] \<and> (\<exists>m. node_at (children n) p = Some m \<and> elem_id m = Some a))"
  "find_in_list a k ns = Some p \<Longrightarrow>
     \<exists>j p'. p = (k + j) # p' \<and> (\<exists>m. node_at ns (j # p') = Some m \<and> elem_id m = Some a)"
proof (induction a n and a k ns arbitrary: p and p rule: find_in_node_find_in_list.induct)
  case (1 a t i cl h cs)
  then show ?case
    by (auto split: if_splits)
next
  case (2 a s)
  then show ?case by simp
next
  case (3 a s)
  then show ?case by simp
next
  case (4 a k)
  then show ?case by simp
next
  case (5 a k n ns)
  show ?case
  proof (cases "find_in_node a n")
    case None
    with 5(3) have "find_in_list a (Suc k) ns = Some p" by simp
    from 5(2) [OF None this] obtain j p' m where
      "p = (Suc k + j) # p'" "node_at ns (j # p') = Some m" "elem_id m = Some a"
      by blast
    then have "p = (k + Suc j) # p' \<and> node_at (n # ns) (Suc j # p') = Some m \<and> elem_id m = Some a"
      by (auto simp: node_at_Cons split: if_splits)
    then show ?thesis by blast
  next
    case (Some p0)
    with 5(3) have p: "p = k # p0" by simp
    from 5(1) [OF Some] have
      "\<exists>m. node_at (n # ns) (0 # p0) = Some m \<and> elem_id m = Some a"
      by (auto simp: node_at_Cons)
    with p show ?thesis
      by (metis add.right_neutral)
  qed
qed

lemma getElementById_element:
  assumes "getElementById a doc = Some p"
  shows "\<exists>m. node_at doc p = Some m \<and> elem_id m = Some a"
  using find_in_sound(2) [of a 0 doc p] assms by (auto simp: getElementById_def)

lemma elem_id_is_element: "elem_id m = Some a \<Longrightarrow> tag m \<noteq> None"
  by (cases m) simp_all


lemma closest_has_class: "q \<in> set (closest c doc p) \<Longrightarrow> has_class_at c doc q"
proof -
  assume "q \<in> set (closest c doc p)"
  then have "find (has_class_at c doc) (self_and_ancestors p) = Some q"
    by (simp add: closest_def split: option.splits)
  then show ?thesis
    by (auto simp: find_Some_iff)
qed

lemma jq_select_elements:
  assumes "jq_select h doc = Some content" "q \<in> set content"
  shows "is_element_at doc q"
proof -
  from assms obtain w where "getElementById w doc = Some q"
    by (auto simp: jq_select_def split: list.splits if_splits option.splits)
  from getElementById_element [OF this] show ?thesis
    by (auto simp: is_element_at_def dest: elem_id_is_element)
qed

lemma slug_char_word: "slug_char c \<Longrightarrow> word_or_hyphen c"
  by (auto simp: slug_char_def word_or_hyphen_def Let_def)

lemma digit_char_word: "d < 10 \<Longrightarrow> word_or_hyphen (digit_char d)"
proof -
  assume "d < 10"
  then have "digit_char d \<in> set ''0123456789''"
    unfolding digit_char_def by (intro nth_mem) simp
  moreover have "list_all word_or_hyphen ''0123456789''"
    by code_simp
  ultimately show ?thesis
    by (simp only: list_all_iff)
qed

lemma decimal_word: "list_all word_or_hyphen (decimal n)"
proof (induction n rule: decimal.induct)
  case (1 n)
  show ?case
  proof (cases "n < 10")
    case True
    then show ?thesis
      by (subst decimal.simps) (simp add: digit_char_word)
  next
    case False
    with 1 show ?thesis
      by (subst decimal.simps) (simp add: digit_char_word)
  qed
qed

lemma slugify_word: "list_all word_or_hyphen (slugify l i)"
proof -
  have "list_all word_or_hyphen ''tab-custom-''"
    by code_simp
  then have "list_all word_or_hyphen (''tab-custom-'' @ decimal i)"
    using decimal_word [of i] by (simp only: list_all_append)
  moreover have "list_all word_or_hyphen (strip_non_slug s)" for s
    by (simp add: strip_non_slug_def list_all_iff slug_char_word)
  ultimately show ?thesis
    by (cases l) (simp_all add: slugify_def Let_def)
qed

text \<open>The target of a rendered tab link is an id reference whenever the slug is made of
  word characters and hyphens, as every slug of the partitioner is.\<close>

lemma rendered_href_is_id_reference:
  assumes "list_all word_or_hyphen (slug t)"
  shows "jq_select (''#'' @ rendered_id t i) doc =
     Some (case getElementById (rendered_id t i) doc of None \<Rightarrow> [] | Some p \<Rightarrow> [p])"
proof -
  have "list_all word_or_hyphen ''tab-dynamic-''" "list_all word_or_hyphen ''-''"
    by code_simp+
  with assms decimal_word [of i] have "list_all word_or_hyphen (rendered_id t i)"
    unfolding rendered_id_def by (simp only: list_all_append)
  moreover have "rendered_id t i \<noteq> []"
    by (simp add: rendered_id_def)
  ultimately show ?thesis
    by (simp add: jq_select_def)
qed

lemma partition_slugs_are_words:
  assumes "\<forall>x\<in>set xs. not_nullish x" "groupCustomFieldsIntoTabs (JArr xs) = Inr r"
    and "t \<in> set (tabs r)"
  shows "list_all word_or_hyphen (slug t)"
proof -
  from group_array [OF assms(1)] assms(2) have
    h: "map tab_head (tabs r) =
        map (\<lambda>(i, x). tab_head (new_tab x i)) (enumerate 0 (filter is_trigger xs))"
    by simp
  from assms(3) have "tab_head t \<in> set (map tab_head (tabs r))"
    by simp
  then obtain i x where "tab_head t = tab_head (new_tab x i)"
    unfolding h by auto
  then have "slug t = slugify (JStr (trigger_label (attr_value x))) i"
    by (simp add: tab_head_def new_tab_def Let_def)
  then show ?thesis
    by (simp add: slugify_word)
qed

text \<open>
  What a run of the handler does once the panel is found, on a link whose target is an
  id reference and whose label control is not itself one of the panels: the referenced
  panel and the label control of the link (its closest \<open>.tab\<close>) are active; every other
  label control of the tab group (the \<open>.tab\<close> elements under the closest \<open>.tabs\<close>) and
  every other panel (the \<open>.tab-content\<close> children of the parent of the panel) is not;
  and no other element gains or loses the class.
\<close>

lemma click_with_panel_found:
  assumes link: "matches_tab_link doc this"
    and hr: "node_at doc this = Some n" "href n = Some h"
    and sel: "jq_select h doc = Some content"
    and disj: "set (closest ''tab'' doc this)
                 \<inter> set (jq_children ''tab-content'' doc (jq_parent content)) = {}"
  shows "if content = []
         then tab_click_handler this doc
                = Some \<lparr>default_prevented = False, document_after = doc\<rparr>
         else (\<exists>doc'.
            tab_click_handler this doc
                = Some \<lparr>default_prevented = True, document_after = doc'\<rparr> \<and>
            (\<forall>q \<in> set content \<union> set (closest ''tab'' doc this).
               has_class_at ''is-active'' doc' q) \<and>
            (\<forall>q \<in> set (jq_find ''tab'' doc (closest ''tabs'' doc this))
                     \<union> set (jq_children ''tab-content'' doc (jq_parent content)).
               q \<notin> set content \<union> set (closest ''tab'' doc this)
                 \<longrightarrow> \<not> has_class_at ''is-active'' doc' q) \<and>
            (\<forall>q. q \<notin> set (jq_find ''tab'' doc (closest ''tabs'' doc this))
                     \<union> set (jq_children ''tab-content'' doc (jq_parent content))
                     \<union> set content \<union> set (closest ''tab'' doc this)
                 \<longrightarrow> has_class_at ''is-active'' doc' q = has_class_at ''is-active'' doc q))"
proof -
  define labels where "labels = jq_find ''tab'' doc (closest ''tabs'' doc this)"
  define panels where "panels = jq_children ''tab-content'' doc (jq_parent content)"
  define clicked where "clicked = closest ''tab'' doc this"
  define doc1 where "doc1 = removeClass ''is-active'' labels doc"
  define doc2 where "doc2 = addClass ''is-active'' clicked doc1"
  define doc3 where "doc3 = removeClass ''is-active'' panels doc2"
  define doc4 where "doc4 = addClass ''is-active'' content doc3"
  from link hr have "prefix ''#tab-dynamic-'' h"
    by (simp add: matches_tab_link_def)
  then have hne: "h \<noteq> []" "h \<noteq> ''#''"
    by (auto simp: prefix_def)
  have "has_class_at ''tab'' doc1 = has_class_at ''tab'' doc"
    by (rule ext) (simp add: doc1_def has_class_removeClass)
  then have clicked1: "closest ''tab'' doc1 this = clicked"
    by (simp add: closest_def clicked_def)
  have run: "tab_click_handler this doc =
      (if content = [] then Some \<lparr>default_prevented = False, document_after = doc\<rparr>
       else Some \<lparr>default_prevented = True, document_after = doc4\<rparr>)"
    using hne clicked1
    by (simp add: tab_click_handler_def hr sel Let_def doc4_def doc3_def doc2_def doc1_def
        labels_def panels_def)
  have c_el: "is_element_at doc q" if "q \<in> set content" for q
    using jq_select_elements [OF sel that] .
  have l_el: "is_element_at doc q" if "q \<in> set clicked" for q
    using that closest_has_class has_class_is_element unfolding clicked_def by blast
  have act: "has_class_at ''is-active'' doc4 q =
      (q \<in> set content \<or>
       (q \<notin> set panels \<and> (q \<in> set clicked \<or> (q \<notin> set labels \<and> has_class_at ''is-active'' doc q))))"
    for q
    using c_el [of q] l_el [of q]
    by (auto simp: doc4_def doc3_def doc2_def doc1_def has_class_addClass has_class_removeClass)
  from disj have disj': "q \<in> set clicked \<Longrightarrow> q \<notin> set panels" for q
    unfolding clicked_def panels_def by blast
  show ?thesis
  proof (cases "content = []")
    case True
    with run show ?thesis by simp
  next
    case False
    have "\<forall>q \<in> set content \<union> set clicked. has_class_at ''is-active'' doc4 q"
      using disj' by (auto simp: act)
    moreover have "\<forall>q \<in> set labels \<union> set panels.
        q \<notin> set content \<union> set clicked \<longrightarrow> \<not> has_class_at ''is-active'' doc4 q"
      by (auto simp: act)
    moreover have "\<forall>q. q \<notin> set labels \<union> set panels \<union> set content \<union> set clicked
        \<longrightarrow> has_class_at ''is-active'' doc4 q = has_class_at ''is-active'' doc q"
      by (auto simp: act)
    ultimately show ?thesis
      using False run unfolding labels_def panels_def clicked_def by auto
  qed
qed




section \<open>Properties of the presenter\<close>

lemma insertBefore_Cons:
  "insertBefore frag (k # p) ns =
     (if p = [] then take k ns @ frag @ drop k ns
      else if k < length ns then ns[k := with_children (insertBefore frag p) (ns ! k)]
      else ns)"
  by (cases p) simp_all

lemma path_after_insert_Cons:
  "path_after_insert n (k # at) (j # p) =
     (if at = [] then (if k \<le> j then (j + n) # p else j # p)
      else if k = j then j # path_after_insert n at p else j # p)"
  by (cases at) simp_all

lemma path_after_insert_Nil [simp]: "path_after_insert n at [] = []"
  by (cases at) simp_all

lemma siblings_before_Cons:
  "siblings_before ns (j # q) =
     (if q = [] then take j ns
      else if j < length ns then siblings_before (children (ns ! j)) q else [])"
  by (cases q) simp_all

lemma find_in_node_alt:
  "find_in_node a n = (if elem_id n = Some a then Some [] else find_in_list a 0 (children n))"
  by (cases n) simp_all

text \<open>The first top-level node that holds the id decides the search.\<close>

lemma find_in_list_None: "find_in_list a k ns = None \<longleftrightarrow> (\<forall>n\<in>set ns. find_in_node a n = None)"
  by (induction ns arbitrary: k) (auto split: option.splits)

lemma find_in_list_Some:
  "find_in_list a k ns = Some p \<longleftrightarrow>
     (\<exists>j p'. p = (k + j) # p' \<and> j < length ns \<and> find_in_node a (ns ! j) = Some p' \<and>
        (\<forall>i<j. find_in_node a (ns ! i) = None))"
proof (induction ns arbitrary: k)
  case Nil
  then show ?case by simp
next
  case (Cons n ns)
  show ?case
  proof (cases "find_in_node a n")
    case (Some p0)
    show ?thesis
    proof
      assume "find_in_list a k (n # ns) = Some p"
      with Some have "p = (k + 0) # p0 \<and> 0 < length (n # ns) \<and>
          find_in_node a ((n # ns) ! 0) = Some p0 \<and> (\<forall>i<0. find_in_node a ((n # ns) ! i) = None)"
        by simp
      then show "\<exists>j p'. p = (k + j) # p' \<and> j < length (n # ns) \<and>
          find_in_node a ((n # ns) ! j) = Some p' \<and> (\<forall>i<j. find_in_node a ((n # ns) ! i) = None)"
        by blast
    next
      assume "\<exists>j p'. p = (k + j) # p' \<and> j < length (n # ns) \<and>
          find_in_node a ((n # ns) ! j) = Some p' \<and> (\<forall>i<j. find_in_node a ((n # ns) ! i) = None)"
      then obtain j p' where *: "p = (k + j) # p'" "find_in_node a ((n # ns) ! j) = Some p'"
        "\<forall>i<j. find_in_node a ((n # ns) ! i) = None"
        by blast
      have "j = 0"
      proof (rule ccontr)
        assume "j \<noteq> 0"
        with *(3) have "find_in_node a ((n # ns) ! 0) = None" by blast
        with Some show False by simp
      qed
      with * Some show "find_in_list a k (n # ns) = Some p" by simp
    qed
  next
    case None
    have "find_in_list a k (n # ns) = Some p \<longleftrightarrow> find_in_list a (Suc k) ns = Some p"
      using None by simp
    also have "\<dots> \<longleftrightarrow> (\<exists>j p'. p = (Suc k + j) # p' \<and> j < length ns \<and>
        find_in_node a (ns ! j) = Some p' \<and> (\<forall>i<j. find_in_node a (ns ! i) = None))"
      by (rule Cons.IH)
    also have "\<dots> \<longleftrightarrow> (\<exists>j p'. p = (k + j) # p' \<and> j < length (n # ns) \<and>
        find_in_node a ((n # ns) ! j) = Some p' \<and> (\<forall>i<j. find_in_node a ((n # ns) ! i) = None))"
      (is "?L \<longleftrightarrow> ?R")
    proof
      assume ?L
      then obtain j p' where "p = (Suc k + j) # p'" "j < length ns"
        "find_in_node a (ns ! j) = Some p'" "\<forall>i<j. find_in_node a (ns ! i) = None"
        by blast
      then have "p = (k + Suc j) # p' \<and> Suc j < length (n # ns) \<and>
          find_in_node a ((n # ns) ! Suc j) = Some p' \<and>
          (\<forall>i<Suc j. find_in_node a ((n # ns) ! i) = None)"
        using None by (auto simp: nth_Cons split: nat.splits)
      then show ?R by blast
    next
      assume ?R
      then obtain j p' where *: "p = (k + j) # p'" "j < length (n # ns)"
        "find_in_node a ((n # ns) ! j) = Some p'" "\<forall>i<j. find_in_node a ((n # ns) ! i) = None"
        by blast
      with None obtain j' where j: "j = Suc j'"
        by (cases j) auto
      with * have "p = (Suc k + j') # p' \<and> j' < length ns \<and>
          find_in_node a (ns ! j') = Some p' \<and> (\<forall>i<j'. find_in_node a (ns ! i) = None)"
        by auto
      then show ?L by blast
    qed
    finally show ?thesis .
  qed
qed


lemma lacks_id_find: "lacks_id a ns \<longleftrightarrow> find_in_list a 0 ns = None"
  by (simp add: lacks_id_def find_in_list_None)

lemma find_in_node_with_children:
  "find_in_node a (with_children g n) =
     (if elem_id n = Some a then Some [] else
      (case n of Element t i cl h cs \<Rightarrow> find_in_list a 0 (g cs) | _ \<Rightarrow> None))"
  by (cases n) simp_all

text \<open>An insertion of nodes without the id brings the id nowhere.\<close>

lemma insertBefore_lacks_id:
  "lacks_id a frag \<Longrightarrow> lacks_id a ns \<Longrightarrow> lacks_id a (insertBefore frag p ns)"
proof (induction p arbitrary: ns)
  case Nil
  then show ?case by simp
next
  case (Cons k p)
  show ?case
  proof (cases "p = []")
    case True
    with Cons.prems show ?thesis
      by (auto simp: insertBefore_Cons lacks_id_def dest: in_set_takeD in_set_dropD)
  next
    case False
    show ?thesis
    proof (cases "k < length ns")
      case False
      with \<open>p \<noteq> []\<close> Cons.prems show ?thesis by (simp add: insertBefore_Cons)
    next
      case True
      with Cons.prems have nk: "find_in_node a (ns ! k) = None"
        by (simp add: lacks_id_def)
      have "find_in_node a (with_children (insertBefore frag p) (ns ! k)) = None"
      proof (cases "ns ! k")
        case (Element t i cl h cs)
        with nk have "i \<noteq> Some a" "lacks_id a cs"
          by (auto simp: lacks_id_find split: if_splits)
        from Cons.IH [OF Cons.prems(1) this(2)] this(1) Element show ?thesis
          by (simp add: lacks_id_find)
      qed simp_all
      with Cons.prems(2) True \<open>p \<noteq> []\<close> show ?thesis
        by (auto simp: insertBefore_Cons lacks_id_def dest!: set_update_subset_insert [THEN subsetD])
    qed
  qed
qed


lemma nth_inserted:
  assumes "k \<le> length ns"
  shows "(take k ns @ frag @ drop k ns) ! i =
     (if i < k then ns ! i else if i < k + length frag then frag ! (i - k)
      else ns ! (i - length frag))"
proof -
  have "length (take k ns) = k"
    using assms by simp
  then show ?thesis
    by (auto simp: nth_append)
qed

text \<open>The first element with an id is the same element after an insertion of nodes
  without the id: the search finds it at its new path.\<close>

lemma find_after_insert:
  assumes "find_in_list b 0 ns = Some q" "lacks_id b frag"
  shows "find_in_list b 0 (insertBefore frag p ns)
         = Some (path_after_insert (length frag) p q)"
  using assms(1)
proof (induction p arbitrary: ns q)
  case Nil
  then show ?case by (cases q) simp_all
next
  case (Cons k p)
  from Cons.prems obtain j q' where q: "q = j # q'" and j: "j < length ns"
    and fj: "find_in_node b (ns ! j) = Some q'"
    and before: "\<forall>i<j. find_in_node b (ns ! i) = None"
    by (auto simp: find_in_list_Some)
  let ?n = "length frag"
  from assms(2) have fr: "\<And>i. i < ?n \<Longrightarrow> find_in_node b (frag ! i) = None"
    by (simp add: lacks_id_def)
  show ?case
  proof (cases "p = []")
    case True
    let ?ns' = "take k ns @ frag @ drop k ns"
    show ?thesis
    proof (cases "k \<le> j")
      case True
      have "j + ?n < length ?ns'"
        using j True by simp
      moreover have kl: "k \<le> length ns"
        using j True by simp
      moreover have "?ns' ! (j + ?n) = ns ! j"
        using True by (simp add: nth_inserted [OF kl])
      moreover have "find_in_node b (?ns' ! i) = None" if "i < j + ?n" for i
      proof -
        consider "i < k" | "k \<le> i" "i < k + ?n" | "k + ?n \<le> i"
          by linarith
        then show ?thesis
        proof cases
          case 1
          with True before show ?thesis by (simp add: nth_inserted [OF kl])
        next
          case 2
          then have "?ns' ! i = frag ! (i - k)"
            by (simp add: nth_inserted [OF kl])
          with 2 fr [of "i - k"] show ?thesis by simp
        next
          case 3
          then have "?ns' ! i = ns ! (i - ?n)"
            by (simp add: nth_inserted [OF kl])
          with 3 that before show ?thesis by simp
        qed
      qed
      ultimately have "find_in_list b 0 ?ns' = Some ((j + ?n) # q')"
        using fj by (subst find_in_list_Some) (intro exI [of _ "j + ?n"] exI [of _ q'], simp)
      with True \<open>p = []\<close> show ?thesis
        by (simp add: q insertBefore_Cons path_after_insert_Cons)
    next
      case False
      then have jk: "j < k" by simp
      have "j < length ?ns'"
        using j by simp
      moreover have "\<And>i. i \<le> j \<Longrightarrow> ?ns' ! i = ns ! i"
        using j jk by (simp add: nth_append)
      ultimately have "find_in_list b 0 ?ns' = Some (j # q')"
        using fj before
        by (subst find_in_list_Some) (intro exI [of _ j] exI [of _ q'], simp)
      with jk \<open>p = []\<close> show ?thesis
        by (simp add: q insertBefore_Cons path_after_insert_Cons)
    qed
  next
    case False
    note p = this
    show ?thesis
    proof (cases "k < length ns")
      case False
      with j have "k \<noteq> j" by simp
      with False p Cons.prems show ?thesis
        by (simp add: q insertBefore_Cons path_after_insert_Cons)
    next
      case True
      let ?N = "with_children (insertBefore frag p) (ns ! k)"
      let ?ns' = "ns[k := ?N]"
      consider "j < k" | "j = k" | "k < j"
        by linarith
      then show ?thesis
      proof cases
        case 1
        then have "find_in_list b 0 ?ns' = Some (j # q')"
          using fj before j
          by (subst find_in_list_Some) (intro exI [of _ j] exI [of _ q'], simp)
        with 1 True p show ?thesis
          by (simp add: q insertBefore_Cons path_after_insert_Cons)
      next
        case 2
        have "find_in_node b ?N = Some (path_after_insert ?n p q')"
        proof (cases "elem_id (ns ! k) = Some b")
          case True
          with fj 2 have "q' = []" by (simp add: find_in_node_alt)
          with True show ?thesis by (simp add: find_in_node_with_children)
        next
          case False
          with fj 2 obtain t i cl h cs where nk: "ns ! k = Element t i cl h cs"
            and "find_in_list b 0 cs = Some q'"
            by (cases "ns ! k") (auto simp: find_in_node_alt)
          from Cons.IH [OF this(2)] False nk show ?thesis
            by (simp add: find_in_node_with_children)
        qed
        then have "find_in_list b 0 ?ns' = Some (k # path_after_insert ?n p q')"
          using before True 2
          by (subst find_in_list_Some)
             (intro exI [of _ k] exI [of _ "path_after_insert ?n p q'"], simp)
        with 2 True p show ?thesis
          by (simp add: q insertBefore_Cons path_after_insert_Cons)
      next
        case 3
        with before have "find_in_node b (ns ! k) = None" by simp
        then have "find_in_node b ?N = None"
        proof (cases "ns ! k")
          case (Element t i cl h cs)
          assume "find_in_node b (ns ! k) = None"
          with Element have "i \<noteq> Some b" "lacks_id b cs"
            by (auto simp: lacks_id_find split: if_splits)
          with insertBefore_lacks_id [OF assms(2) this(2), of p] Element show ?thesis
            by (simp add: lacks_id_find)
        qed simp_all
        then have "find_in_node b (?ns' ! i) = None" if "i < j" for i
          using that before True by (cases "i = k") simp_all
        then have "find_in_list b 0 ?ns' = Some (j # q')"
          using fj j 3
          by (subst find_in_list_Some) (intro exI [of _ j] exI [of _ q'], simp)
        with 3 True p show ?thesis
          by (simp add: q insertBefore_Cons path_after_insert_Cons)
      qed
    qed
  qed
qed


lemma path_after_insert_not_Nil: "q \<noteq> [] \<Longrightarrow> path_after_insert n p q \<noteq> []"
  by (cases q; cases p) (simp_all add: path_after_insert_Cons)

lemma node_at_Cons_Some:
  assumes "node_at ns (k # p) = Some m"
  shows "k < length ns \<and> (if p = [] then m = ns ! k else node_at (children (ns ! k)) p = Some m)"
  using assms by (auto simp: node_at_Cons split: if_splits)

lemma node_at_children_Element:
  assumes "node_at (children n) p = Some m"
  obtains t i cl h cs where "n = Element t i cl h cs"
  using assms by (cases n) simp_all

text \<open>After an insertion before an element, the inserted nodes are the last of the
  siblings that precede it.\<close>

lemma siblings_after_own_insert:
  assumes "node_at ns p = Some m"
  shows "siblings_before (insertBefore frag p ns) (path_after_insert (length frag) p p)
         = siblings_before ns p @ frag"
  using assms
proof (induction p arbitrary: ns)
  case Nil
  then show ?case by simp
next
  case (Cons k p)
  from node_at_Cons_Some [OF Cons.prems] have k: "k < length ns"
    and rest: "p \<noteq> [] \<Longrightarrow> node_at (children (ns ! k)) p = Some m"
    by (simp_all split: if_splits)
  show ?case
  proof (cases "p = []")
    case True
    with k show ?thesis
      by (simp add: insertBefore_Cons path_after_insert_Cons siblings_before_Cons)
  next
    case False
    from rest [OF False] obtain t i cl h cs where nk: "ns ! k = Element t i cl h cs"
      by (rule node_at_children_Element)
    with rest [OF False] have "node_at cs p = Some m" by simp
    from Cons.IH [OF this] False k nk show ?thesis
      by (simp add: insertBefore_Cons path_after_insert_Cons siblings_before_Cons
          path_after_insert_not_Nil)
  qed
qed

lemma node_at_has_id:
  assumes "node_at ns (k # p) = Some m" "elem_id m = Some b"
  shows "find_in_node b (ns ! k) \<noteq> None"
  using assms
proof (induction p arbitrary: ns k)
  case Nil
  then show ?case by (simp add: find_in_node_alt split: if_splits)
next
  case (Cons j p)
  from node_at_Cons_Some [OF Cons.prems(1)] have
    "node_at (children (ns ! k)) (j # p) = Some m" by simp
  from Cons.IH [OF this Cons.prems(2)] node_at_Cons_Some [OF this]
  have "find_in_node b (children (ns ! k) ! j) \<noteq> None" "j < length (children (ns ! k))"
    by simp_all
  then have "\<not> lacks_id b (children (ns ! k))"
    unfolding lacks_id_def by (meson nth_mem)
  then show ?case
    by (simp add: find_in_node_alt lacks_id_find)
qed

lemma suffix_after_index:
  assumes "suffix X (take j ns)" "k < j" "j \<le> length ns" "ns ! k \<notin> set X"
  shows "suffix X (drop (Suc k) (take j ns))"
proof -
  from assms(1) obtain zs where zs: "take j ns = zs @ X"
    by (auto simp: suffix_def)
  have "k < length zs"
  proof (rule ccontr)
    assume "\<not> k < length zs"
    moreover have "length zs + length X = j"
      using arg_cong [OF zs, of length] assms(3) by simp
    ultimately have "k - length zs < length X" "(zs @ X) ! k = X ! (k - length zs)"
      using assms(2) by (simp_all add: nth_append)
    moreover have "(zs @ X) ! k = ns ! k"
      using assms(2) by (simp add: zs [symmetric])
    ultimately have "ns ! k \<in> set X"
      by (metis nth_mem)
    with assms(4) show False by simp
  qed
  then have "drop (Suc k) (take j ns) = drop (Suc k) zs @ X"
    by (simp add: zs)
  then show ?thesis
    by (simp add: suffix_def)
qed

lemma take_split_at:
  assumes "k < j" "j \<le> length ns"
  shows "take j ns = take k ns @ ns ! k # drop (Suc k) (take j ns)"
proof -
  have "take j ns = take k (take j ns) @ (take j ns) ! k # drop (Suc k) (take j ns)"
    using assms by (intro id_take_nth_drop) simp
  with assms show ?thesis
    by (simp add: min_def)
qed


text \<open>
  An insertion before another element keeps what immediately precedes this one, as long
  as the insertion point is not inside the nodes in question.
\<close>

lemma siblings_after_other_insert:
  assumes "node_at ns p = Some mb" "elem_id mb = Some b" "lacks_id b X"
    and "node_at ns q = Some ma" "q \<noteq> p" "suffix X (siblings_before ns q)"
  shows "suffix X (siblings_before (insertBefore frag p ns)
                    (path_after_insert (length frag) p q))"
  using assms(1,4,5,6)
proof (induction p arbitrary: ns q)
  case Nil
  then show ?case by simp
next
  case (Cons k p)
  let ?n = "length frag"
  from Cons.prems(2) obtain j q' where q: "q = j # q'"
    by (cases q) simp_all
  from node_at_Cons_Some [OF Cons.prems(1)] have k: "k < length ns"
    and prest: "p \<noteq> [] \<Longrightarrow> node_at (children (ns ! k)) p = Some mb"
    by (simp_all split: if_splits)
  from node_at_Cons_Some [OF Cons.prems(2) [unfolded q]] have j: "j < length ns"
    and qrest: "q' \<noteq> [] \<Longrightarrow> node_at (children (ns ! j)) q' = Some ma"
    by (simp_all split: if_splits)
  from node_at_has_id [OF Cons.prems(1) assms(2)] assms(3) have notin: "ns ! k \<notin> set X"
    by (auto simp: lacks_id_def)
  from Cons.prems(4) have suf: "suffix X (if q' = [] then take j ns
      else siblings_before (children (ns ! j)) q')"
    using j by (auto simp: q siblings_before_Cons split: if_splits)
  show ?case
  proof (cases "p = []")
    case True
    note p = this
    define ns' where "ns' = take k ns @ frag @ drop k ns"
    have ins: "insertBefore frag (k # p) ns = ns'"
      using p by (simp add: insertBefore_Cons ns'_def)
    have kl: "k \<le> length ns" using k by simp
    show ?thesis
    proof (cases "q' = []")
      case True
      with Cons.prems(3) p q have "k \<noteq> j" by simp
      show ?thesis
      proof (cases "k \<le> j")
        case True
        with \<open>k \<noteq> j\<close> have kj: "k < j" by simp
        from suf \<open>q' = []\<close> have "suffix X (take j ns)" by simp
        from suffix_after_index [OF this kj _ notin] j
        have "suffix X (drop (Suc k) (take j ns))" by simp
        moreover have "take (j + ?n) ns' = take k ns @ frag @ ns ! k # drop (Suc k) (take j ns)"
        proof -
          have "take (j + ?n) ns' = take k ns @ frag @ take (j - k) (drop k ns)"
            using kj k by (simp add: min_def ns'_def)
          also have "take (j - k) (drop k ns) = drop k (take j ns)"
            by (simp add: drop_take)
          also have "drop k (take j ns) = ns ! k # drop (Suc k) (take j ns)"
            using take_split_at [OF kj, of ns] j kj
            by (metis Cons_nth_drop_Suc length_take less_or_eq_imp_le min.absorb2 nth_take)
          finally show ?thesis .
        qed
        ultimately have "suffix X (take (j + ?n) ns')"
          by (auto simp: suffix_def)
        moreover have "path_after_insert ?n (k # p) q = [j + ?n]"
          using True p \<open>q' = []\<close> by (simp add: q path_after_insert_Cons)
        ultimately show ?thesis
          unfolding ins by simp
      next
        case False
        then have "take j ns' = take j ns"
          using k by (simp add: ns'_def)
        moreover have "path_after_insert ?n (k # p) q = [j]"
          using False p \<open>q' = []\<close> by (simp add: q path_after_insert_Cons)
        ultimately show ?thesis
          unfolding ins using suf \<open>q' = []\<close> by simp
      qed
    next
      case False
      define j' where "j' = (if k \<le> j then j + ?n else j)"
      have "j' < length ns'" "ns' ! j' = ns ! j"
        using j k by (simp_all add: nth_inserted [OF kl] ns'_def j'_def)
      moreover have "path_after_insert ?n (k # p) q = j' # q'"
        using p by (simp add: q path_after_insert_Cons j'_def)
      ultimately show ?thesis
        unfolding ins using suf False by (simp add: siblings_before_Cons)
    qed
  next
    case False
    note p = this
    define N where "N = with_children (insertBefore frag p) (ns ! k)"
    define ns' where "ns' = ns[k := N]"
    have ins: "insertBefore frag (k # p) ns = ns'"
      using p k by (simp add: insertBefore_Cons ns'_def N_def)
    show ?thesis
    proof (cases "j = k")
      case False
      show ?thesis
      proof (cases "q' = []")
        case True
        have "suffix X (take j ns')"
        proof (cases "k < j")
          case True
          from suf \<open>q' = []\<close> have "suffix X (take j ns)" by simp
          from suffix_after_index [OF this True _ notin] j
          have "suffix X (drop (Suc k) (take j ns))" by simp
          moreover have "take j ns' = take k ns @ N # drop (Suc k) (take j ns)"
          proof -
            have "take j ns' = (take j ns)[k := N]"
              by (simp add: take_update_swap ns'_def)
            also have "\<dots> = take k (take j ns) @ N # drop (Suc k) (take j ns)"
              using True j by (intro upd_conv_take_nth_drop) simp
            finally show ?thesis
              using True by (simp add: min_def)
          qed
          ultimately show ?thesis
            by (auto simp: suffix_def)
        next
          case False
          with suf \<open>q' = []\<close> show ?thesis by (simp add: ns'_def)
        qed
        moreover have "path_after_insert ?n (k # p) q = [j]"
          using True False p by (simp add: q path_after_insert_Cons)
        ultimately show ?thesis
          unfolding ins by simp
      next
        case qn: False
        have "ns' ! j = ns ! j" "j < length ns'"
          using False j by (simp_all add: ns'_def)
        moreover have "path_after_insert ?n (k # p) q = j # q'"
          using False p by (simp add: q path_after_insert_Cons)
        ultimately show ?thesis
          unfolding ins using suf qn by (simp add: siblings_before_Cons)
      qed
    next
      case True
      note jk = this
      show ?thesis
      proof (cases "q' = []")
        case True
        have "take k ns' = take k ns"
          by (simp add: ns'_def)
        moreover have "path_after_insert ?n (k # p) q = [k]"
          using True jk p by (simp add: q path_after_insert_Cons)
        ultimately show ?thesis
          unfolding ins using suf jk True by simp
      next
        case False
        from prest [OF p] obtain t i cl h cs where nk: "ns ! k = Element t i cl h cs"
          by (rule node_at_children_Element)
        from prest [OF p] nk have 1: "node_at cs p = Some mb" by simp
        from qrest [OF False] jk nk have 2: "node_at cs q' = Some ma" by simp
        from Cons.prems(3) jk q have 3: "q' \<noteq> p" by simp
        from suf False jk nk have 4: "suffix X (siblings_before cs q')" by simp
        have "children (ns' ! k) = insertBefore frag p cs" "k < length ns'"
          using k nk by (simp_all add: ns'_def N_def)
        moreover have "path_after_insert ?n (k # p) q = k # path_after_insert ?n p q'"
          using jk p by (simp add: q path_after_insert_Cons)
        ultimately show ?thesis
          unfolding ins using Cons.IH [OF 1 2 3 4] False
          by (simp add: siblings_before_Cons path_after_insert_not_Nil)
      qed
    qed
  qed
qed


subsection \<open>Insertion before the element with an id\<close>

lemma insertBefore_empty [simp]: "insertBefore [] p ns = ns"
proof (induction p arbitrary: ns)
  case Nil
  then show ?case by simp
next
  case (Cons k p)
  have "with_children (insertBefore [] p) n = n" for n
    by (cases n) (simp_all add: Cons.IH)
  then show ?case
    by (simp add: insertBefore_Cons)
qed

lemma insert_before_id_empty [simp]: "insert_before_id a [] doc = doc"
  by (simp add: insert_before_id_def split: option.split)

lemma anchor_kept:
  assumes "getElementById b doc \<noteq> None" "lacks_id b frag"
  shows "getElementById b (insert_before_id a frag doc) \<noteq> None"
proof (cases "getElementById a doc")
  case None
  with assms(1) show ?thesis by (simp add: insert_before_id_def)
next
  case (Some p)
  from assms(1) obtain q where "find_in_list b 0 doc = Some q"
    by (auto simp: getElementById_def)
  from find_after_insert [OF this assms(2), of p] Some show ?thesis
    by (simp add: insert_before_id_def getElementById_def)
qed

lemma before_own_anchor:
  assumes "getElementById a doc \<noteq> None" "lacks_id a frag"
  shows "before_anchor a (insert_before_id a frag doc) = before_anchor a doc @ frag"
proof -
  from assms(1) obtain p where p: "getElementById a doc = Some p"
    by auto
  then obtain m where m: "node_at doc p = Some m"
    using getElementById_element by blast
  from p have "find_in_list a 0 doc = Some p"
    by (simp add: getElementById_def)
  from find_after_insert [OF this assms(2), of p]
  have "getElementById a (insertBefore frag p doc) = Some (path_after_insert (length frag) p p)"
    by (simp add: getElementById_def)
  with siblings_after_own_insert [OF m, of frag] p show ?thesis
    by (simp add: before_anchor_def insert_before_id_def)
qed

lemma before_other_anchor:
  assumes "a \<noteq> b" "getElementById a doc \<noteq> None" "lacks_id a frag" "lacks_id b X"
    and "suffix X (before_anchor a doc)"
  shows "suffix X (before_anchor a (insert_before_id b frag doc))"
proof (cases "getElementById b doc")
  case None
  with assms(5) show ?thesis by (simp add: insert_before_id_def)
next
  case (Some p)
  from assms(2) obtain q where q: "getElementById a doc = Some q"
    by auto
  from getElementById_element [OF Some] obtain mb where
    mb: "node_at doc p = Some mb" "elem_id mb = Some b" by blast
  from getElementById_element [OF q] obtain ma where
    ma: "node_at doc q = Some ma" "elem_id ma = Some a" by blast
  from mb ma assms(1) have "q \<noteq> p" by auto
  from q have "find_in_list a 0 doc = Some q"
    by (simp add: getElementById_def)
  from find_after_insert [OF this assms(3), of p]
  have "getElementById a (insertBefore frag p doc) = Some (path_after_insert (length frag) p q)"
    by (simp add: getElementById_def)
  moreover from assms(5) q have "suffix X (siblings_before doc q)"
    by (simp add: before_anchor_def)
  from siblings_after_other_insert [OF mb assms(4) ma(1) \<open>q \<noteq> p\<close> this, of frag]
  have "suffix X (siblings_before (insertBefore frag p doc)
      (path_after_insert (length frag) p q))" .
  ultimately show ?thesis
    using Some by (simp add: before_anchor_def insert_before_id_def)
qed

subsection \<open>The fragments carry none of the anchor ids\<close>

lemma lacks_id_append [simp]: "lacks_id a (xs @ ys) \<longleftrightarrow> lacks_id a xs \<and> lacks_id a ys"
  by (auto simp: lacks_id_def)

lemma lacks_id_Nil [simp]: "lacks_id a []"
  by (simp add: lacks_id_def)

lemma lacks_id_leading [simp]: "lacks_id a (leading_fragment lf)"
  by (auto simp: lacks_id_def leading_fragment_def field_pair_def)

lemma lacks_id_tab_list [simp]: "lacks_id a (tab_list_fragment ts)"
  by (auto simp: lacks_id_def tab_list_fragment_def tab_li_def text_nodes_def)

lemma lacks_id_field_pairs: "find_in_list a 0 (concat (map field_pair fs)) = None"
  using lacks_id_leading [of a fs] by (simp add: lacks_id_find leading_fragment_def)

lemma lacks_id_content:
  assumes "hd a \<noteq> CHR ''t''"
  shows "lacks_id a (content_fragment ts)"
proof -
  have "rendered_id t i \<noteq> a" for t i
    using assms by (auto simp: rendered_id_def)
  then show ?thesis
    by (auto simp: lacks_id_def content_fragment_def tab_panel_def lacks_id_field_pairs)
qed


subsection \<open>One run of the entry point\<close>

lemma fragments_lack_anchor_ids [simp]:
  "lacks_anchor_ids (leading_fragment lf)"
  "lacks_anchor_ids (tab_list_fragment ts)"
  "lacks_anchor_ids (content_fragment ts)"
  by (simp_all add: lacks_anchor_ids_def lacks_id_content)

lemma lacks_anchor_ids_append [simp]:
  "lacks_anchor_ids (xs @ ys) \<longleftrightarrow> lacks_anchor_ids xs \<and> lacks_anchor_ids ys"
  by (auto simp: lacks_anchor_ids_def)

lemma inject_leading_document:
  "injectLeadingCustomFields lf pg =
     pg\<lparr>document := insert_before_id ''product-leading-custom-fields-anchor''
                        (leading_fragment lf) (document pg)\<rparr>"
  by (cases "lf = []")
     (simp_all add: injectLeadingCustomFields_def insert_before_id_def leading_fragment_def
       split: option.split)

lemma inject_tabs_document:
  assumes "getElementById ''product-dynamic-cf-tabs-anchor'' (document pg) \<noteq> None"
    and "getElementById ''product-dynamic-cf-content-anchor'' (document pg) \<noteq> None"
  shows "injectDynamicTabs ts pg =
     pg\<lparr>document :=
          insert_before_id ''product-dynamic-cf-content-anchor'' (content_fragment ts)
            (insert_before_id ''product-dynamic-cf-tabs-anchor'' (tab_list_fragment ts)
               (document pg))\<rparr>"
proof (cases "ts = []")
  case True
  then show ?thesis
    by (simp add: injectDynamicTabs_def tab_list_fragment_def content_fragment_def)
next
  case False
  from assms obtain q2 q3 where
    q2: "getElementById ''product-dynamic-cf-tabs-anchor'' (document pg) = Some q2" and
    q3: "getElementById ''product-dynamic-cf-content-anchor'' (document pg) = Some q3"
    by auto
  from q3 have "find_in_list ''product-dynamic-cf-content-anchor'' 0 (document pg) = Some q3"
    by (simp add: getElementById_def)
  from find_after_insert [OF this lacks_id_tab_list, of ts q2]
  have "getElementById ''product-dynamic-cf-content-anchor''
          (insertBefore (tab_list_fragment ts) q2 (document pg))
        = Some (path_after_insert (length (tab_list_fragment ts)) q2 q3)"
    by (simp add: getElementById_def)
  with False q2 q3 show ?thesis
    by (simp add: injectDynamicTabs_def insert_before_id_def Let_def)
qed

lemma context_field_truthy: "truthy (context_field ctx k) \<Longrightarrow> truthy ctx"
  by (cases ctx) (simp_all add: context_field_def)

text \<open>What one run does to a page that has the three anchors.\<close>

lemma init_renders:
  assumes "truthy (context_field ctx ''productUseDynamicCustomFieldTabs'')"
    and "truthy (context_field ctx ''productCustomFields'')"
    and "groupCustomFieldsIntoTabs (context_field ctx ''productCustomFields'') = Inr r"
    and "anchors_present (document pg)"
  shows "initDynamicCustomFieldTabs ctx pg =
     Inr (pg\<lparr>document := render_partition r (document pg),
              click_listeners := click_listeners pg + (if tabs r = [] then 0 else 1)\<rparr>)"
proof -
  let ?pg1 = "injectLeadingCustomFields (leadingFields r) pg"
  have ctx: "truthy ctx"
    using assms(1) by (rule context_field_truthy)
  have d1: "document ?pg1 = insert_before_id ''product-leading-custom-fields-anchor''
      (leading_fragment (leadingFields r)) (document pg)"
    by (simp add: inject_leading_document)
  show ?thesis
  proof (cases "tabs r = []")
    case True
    then show ?thesis
      using init_active [OF ctx assms(1,2), of pg] assms(3)
      by (simp add: render_partition_def inject_leading_document tab_list_fragment_def
          content_fragment_def)
  next
    case False
    have "getElementById ''product-dynamic-cf-tabs-anchor'' (document ?pg1) \<noteq> None"
      "getElementById ''product-dynamic-cf-content-anchor'' (document ?pg1) \<noteq> None"
      unfolding d1 using assms(4)
      by (simp_all add: anchors_present_def anchor_kept)
    from inject_tabs_document [OF this, of "tabs r"] False show ?thesis
      using init_active [OF ctx assms(1,2), of pg] assms(3)
      by (simp add: render_partition_def inject_leading_document bindDynamicTabClicks_def)
  qed
qed

lemma render_step:
  assumes "anchors_present doc"
    and "lacks_anchor_ids X1" "lacks_anchor_ids X2" "lacks_anchor_ids X3"
    and "suffix X1 (before_anchor ''product-leading-custom-fields-anchor'' doc)"
    and "suffix X2 (before_anchor ''product-dynamic-cf-tabs-anchor'' doc)"
    and "suffix X3 (before_anchor ''product-dynamic-cf-content-anchor'' doc)"
  shows "anchors_present (render_partition r doc) \<and>
    suffix (X1 @ leading_fragment (leadingFields r))
      (before_anchor ''product-leading-custom-fields-anchor'' (render_partition r doc)) \<and>
    suffix (X2 @ tab_list_fragment (tabs r))
      (before_anchor ''product-dynamic-cf-tabs-anchor'' (render_partition r doc)) \<and>
    suffix (X3 @ content_fragment (tabs r))
      (before_anchor ''product-dynamic-cf-content-anchor'' (render_partition r doc))"
proof -
  let ?A1 = "''product-leading-custom-fields-anchor''"
  let ?A2 = "''product-dynamic-cf-tabs-anchor''"
  let ?A3 = "''product-dynamic-cf-content-anchor''"
  let ?LF = "leading_fragment (leadingFields r)"
  let ?TF = "tab_list_fragment (tabs r)"
  let ?PF = "content_fragment (tabs r)"
  define da where "da = insert_before_id ?A1 ?LF doc"
  define db where "db = insert_before_id ?A2 ?TF da"
  define dc where "dc = insert_before_id ?A3 ?PF db"
  have dc: "render_partition r doc = dc"
    by (simp add: render_partition_def dc_def db_def da_def)
  have lPF: "lacks_id ?A1 ?PF" "lacks_id ?A2 ?PF" "lacks_id ?A3 ?PF"
    by (simp_all add: lacks_id_content)
  from assms(1) have p0: "getElementById ?A1 doc \<noteq> None" "getElementById ?A2 doc \<noteq> None"
    "getElementById ?A3 doc \<noteq> None"
    by (simp_all add: anchors_present_def)
  have pa: "getElementById ?A1 da \<noteq> None" "getElementById ?A2 da \<noteq> None"
    "getElementById ?A3 da \<noteq> None"
    unfolding da_def using p0 by (simp_all add: anchor_kept)
  have pb: "getElementById ?A1 db \<noteq> None" "getElementById ?A2 db \<noteq> None"
    "getElementById ?A3 db \<noteq> None"
    unfolding db_def using pa by (simp_all add: anchor_kept)
  have pc: "getElementById ?A1 dc \<noteq> None" "getElementById ?A2 dc \<noteq> None"
    "getElementById ?A3 dc \<noteq> None"
    unfolding dc_def using pb lPF by (simp_all add: anchor_kept)
  from assms(2-4) have l1: "lacks_id ?A2 X1" "lacks_id ?A3 X1"
    and l2: "lacks_id ?A1 X2" "lacks_id ?A3 X2"
    and l3: "lacks_id ?A1 X3" "lacks_id ?A2 X3"
    by (simp_all add: lacks_anchor_ids_def)
  \<comment> \<open>the leading anchor\<close>
  have "before_anchor ?A1 da = before_anchor ?A1 doc @ ?LF"
    unfolding da_def using p0(1) by (simp add: before_own_anchor)
  with assms(5) have "suffix (X1 @ ?LF) (before_anchor ?A1 da)"
    by simp
  then have "suffix (X1 @ ?LF) (before_anchor ?A1 db)"
    unfolding db_def using pa(1) l1(1) by (intro before_other_anchor) simp_all
  then have s1: "suffix (X1 @ ?LF) (before_anchor ?A1 dc)"
    unfolding dc_def using pb(1) l1(2) lPF by (intro before_other_anchor) simp_all
  \<comment> \<open>the anchor of the tab list\<close>
  have "suffix X2 (before_anchor ?A2 da)"
    unfolding da_def using p0(2) l2(1) assms(6) by (intro before_other_anchor) simp_all
  moreover have "before_anchor ?A2 db = before_anchor ?A2 da @ ?TF"
    unfolding db_def using pa(2) by (simp add: before_own_anchor)
  ultimately have "suffix (X2 @ ?TF) (before_anchor ?A2 db)"
    by simp
  then have s2: "suffix (X2 @ ?TF) (before_anchor ?A2 dc)"
    unfolding dc_def using pb(2) l2(2) lPF by (intro before_other_anchor) simp_all
  \<comment> \<open>the anchor of the panels\<close>
  have "suffix X3 (before_anchor ?A3 da)"
    unfolding da_def using p0(3) l3(1) assms(7) by (intro before_other_anchor) simp_all
  then have "suffix X3 (before_anchor ?A3 db)"
    unfolding db_def using pa(3) l3(2) by (intro before_other_anchor) simp_all
  moreover have "before_anchor ?A3 dc = before_anchor ?A3 db @ ?PF"
    unfolding dc_def using pb(3) lPF by (simp add: before_own_anchor)
  ultimately have s3: "suffix (X3 @ ?PF) (before_anchor ?A3 dc)"
    by simp
  from pc s1 s2 s3 show ?thesis
    unfolding dc by (simp add: anchors_present_def)
qed


lemma leading_fragment_not_empty: "lf \<noteq> [] \<Longrightarrow> leading_fragment lf \<noteq> []"
  by (cases lf) (simp_all add: leading_fragment_def field_pair_def)

subsection \<open>The fragments of a list of attribute entries\<close>

text \<open>The partition of an attribute list, in the words of the specification.\<close>

lemma group_attribute_list:
  assumes "attribute_list v"
  shows "\<exists>r. groupCustomFieldsIntoTabs v = Inr r \<and>
    all_fields r =
      map normalized_spec (filter (\<lambda>x. usable_name_spec x \<and> \<not> is_trigger_spec x) (entries v))"
proof (cases "isArray v")
  case False
  then have "entries v = []"
    by (cases v) (simp_all add: isArray_def entries_def)
  with False show ?thesis
    by (simp add: group_non_array empty_result_def all_fields_def)
next
  case True
  then obtain xs where xs: "v = JArr xs"
    using isArray_cases by blast
  with assms have "\<forall>x\<in>set xs. attribute_entry x"
    by (simp add: attribute_list_def list_all_iff)
  from group_attribute_entries [OF this] show ?thesis
    by (simp add: xs entries_def)
qed

lemma field_pair_text: "text_field f \<Longrightarrow> field_pair f = expected_pair f"
  by (auto simp: text_field_def field_pair_def expected_pair_def innerHTML_string_def
      text_of_def)

lemma field_pairs_text:
  "\<forall>f\<in>set fs. text_field f \<Longrightarrow> concat (map field_pair fs) = expected_pairs fs"
  by (induction fs) (simp_all add: field_pair_text)

lemma tab_list_controls:
  "map (\<lambda>(i, t). tab_li t i) (enumerate k ts) = expected_label_controls k ts"
  by (induction ts arbitrary: k) (simp_all add: tab_li_def rendered_id_def)

lemma content_panels_text:
  "\<forall>t\<in>set ts. \<forall>f\<in>set (tab_fields t). text_field f \<Longrightarrow>
   map (\<lambda>(i, t). tab_panel t i) (enumerate k ts) = expected_panels k ts"
  by (induction ts arbitrary: k) (simp_all add: tab_panel_def rendered_id_def field_pairs_text)

lemma normalized_spec_text: "text_field (normalized_spec x)"
  by (simp add: text_field_def normalized_spec_def)

lemma attribute_list_text_fields:
  assumes "attribute_list v" "groupCustomFieldsIntoTabs v = Inr r"
  shows "\<forall>f\<in>set (all_fields r). text_field f"
proof -
  from group_attribute_list [OF assms(1)] assms(2) have
    "all_fields r = map normalized_spec
       (filter (\<lambda>x. usable_name_spec x \<and> \<not> is_trigger_spec x) (entries v))"
    by simp
  then show ?thesis
    by (auto simp: normalized_spec_text)
qed

lemma attribute_list_fragments:
  assumes "attribute_list v" "groupCustomFieldsIntoTabs v = Inr r"
  shows "leading_fragment (leadingFields r) = expected_pairs (leadingFields r)"
    and "tab_list_fragment (tabs r) = expected_label_controls 0 (tabs r)"
    and "content_fragment (tabs r) = expected_panels 0 (tabs r)"
proof -
  from attribute_list_text_fields [OF assms] have
    l: "\<forall>f\<in>set (leadingFields r). text_field f" and
    t: "\<forall>t\<in>set (tabs r). \<forall>f\<in>set (tab_fields t). text_field f"
    by (auto simp: all_fields_def)
  from l show "leading_fragment (leadingFields r) = expected_pairs (leadingFields r)"
    by (simp add: leading_fragment_def field_pairs_text)
  show "tab_list_fragment (tabs r) = expected_label_controls 0 (tabs r)"
    by (simp add: tab_list_fragment_def tab_list_controls)
  from t show "content_fragment (tabs r) = expected_panels 0 (tabs r)"
    by (simp add: content_fragment_def content_panels_text)
qed





section \<open>The entry point on attribute lists\<close>

text \<open>An anchor that is missing is still missing after the leading fields are in.\<close>

lemma missing_anchor_after_leading:
  assumes "getElementById b (document pg) = None"
  shows "getElementById b (document (injectLeadingCustomFields lf pg)) = None"
proof -
  from assms have "lacks_id b (document pg)"
    by (simp add: lacks_id_find getElementById_def)
  then have "lacks_id b (insertBefore (leading_fragment lf) p (document pg))" for p
    by (intro insertBefore_lacks_id) simp_all
  then show ?thesis
    using assms
    by (simp add: inject_leading_document insert_before_id_def lacks_id_find
        getElementById_def split: option.split)
qed





end
